theory Spec2Isabelle
  imports Main "HOL-Library.Word" "HOL-Library.Sublist"
begin

section \<open>BoundedBuffer (BoundedBuffer.hpp, BoundedBuffer.cpp)\<close>

text \<open>
  The class has the public fields \<open>count\<close>, \<open>head\<close>, \<open>tail\<close> and the private fields
  \<open>capacity\<close> and \<open>buffer\<close> (a \<open>std::queue<int>\<close>); all integers are C++ \<open>int\<close>, here
  32-bit words read as two's complement. The queue is a list whose first element is
  \<open>front()\<close>; \<open>push\<close> appends at the end and \<open>pop\<close> drops the first element.
  The mutex and the two condition variables do not appear as data: every call holds the
  lock for its whole body, so a call is one atomic step of the buffer, and a call that
  finds its wait condition true releases the lock and leaves the buffer untouched.
\<close>

type_synonym c_int = "32 word"

record BoundedBuffer =
  count :: c_int
  head :: c_int
  tail :: c_int
  capacity :: c_int
  buffer :: "c_int list"

text \<open>The constructor \<open>BoundedBuffer::BoundedBuffer(int max_size)\<close>.\<close>

definition new_BoundedBuffer :: "c_int \<Rightarrow> BoundedBuffer" where
  "new_BoundedBuffer max_size =
     \<lparr>count = 0, head = 0, tail = 0, capacity = max_size, buffer = []\<rparr>"

text \<open>
  What a call can do other than return: \<open>Blocked\<close> is the caller sitting in
  \<open>wait\<close> on its condition variable (the loop condition held when it was checked);
  \<open>FrontOfEmptyQueue\<close> is \<open>front()\<close> on an empty \<open>std::queue\<close>, which C++ leaves
  undefined.
\<close>

datatype bb_fault = Blocked | FrontOfEmptyQueue

definition getItem :: "BoundedBuffer \<Rightarrow> bb_fault + (c_int \<times> BoundedBuffer)" where
  "getItem b =
     (if count b = 0 then Inl Blocked
      else
        let b1 = b\<lparr>count := count b - 1\<rparr> in
        (case buffer b1 of
           [] \<Rightarrow> Inl FrontOfEmptyQueue
         | item # rest \<Rightarrow>
             let b2 = b1\<lparr>buffer := rest\<rparr>;
                 b3 = b2\<lparr>tail := tail b2 + 1\<rparr>;
                 b4 = (if tail b3 = capacity b3 then b3\<lparr>tail := 0\<rparr> else b3)
             in Inr (item, b4)))"

definition putItem :: "c_int \<Rightarrow> BoundedBuffer \<Rightarrow> bb_fault + BoundedBuffer" where
  "putItem new_item b =
     (if count b = capacity b then Inl Blocked
      else
        let b1 = b\<lparr>count := count b + 1\<rparr>;
            b2 = b1\<lparr>buffer := buffer b1 @ [new_item]\<rparr>;
            b3 = b2\<lparr>head := head b2 + 1\<rparr>;
            b4 = (if head b3 = capacity b3 then b3\<lparr>head := 0\<rparr> else b3)
        in Inr b4)"

subsection \<open>Interleavings of calls\<close>

text \<open>
  The lock serialises the bodies of all calls, so a concurrent execution is a sequence
  of atomic steps, one per attempt of a thread to get past its wait loop. An attempt
  that finds the condition true waits: the buffer is unchanged, and the thread's next
  attempt (after a wake-up, spurious or not) is a later element of the sequence.
\<close>

datatype call = PutItem c_int | GetItem

datatype event = Inserted c_int | Taken c_int | Waiting call

fun step :: "call \<Rightarrow> BoundedBuffer \<Rightarrow> (event \<times> BoundedBuffer) option" where
  "step (PutItem x) b =
     (case putItem x b of
        Inl Blocked \<Rightarrow> Some (Waiting (PutItem x), b)
      | Inl FrontOfEmptyQueue \<Rightarrow> None
      | Inr b' \<Rightarrow> Some (Inserted x, b'))"
| "step GetItem b =
     (case getItem b of
        Inl Blocked \<Rightarrow> Some (Waiting GetItem, b)
      | Inl FrontOfEmptyQueue \<Rightarrow> None
      | Inr (item, b') \<Rightarrow> Some (Taken item, b'))"

text \<open>
  A run of a sequence of attempts: the events in order and the final buffer, or
  \<open>None\<close> when some step has no defined behaviour.
\<close>

fun run :: "call list \<Rightarrow> BoundedBuffer \<Rightarrow> (event list \<times> BoundedBuffer) option" where
  "run [] b = Some ([], b)"
| "run (c # cs) b =
     (case step c b of
        None \<Rightarrow> None
      | Some (e, b') \<Rightarrow>
          (case run cs b' of
             None \<Rightarrow> None
           | Some (es, b'') \<Rightarrow> Some (e # es, b'')))"

text \<open>The items inserted and the items handed out, each in the order of the events.\<close>

fun inserted :: "event list \<Rightarrow> c_int list" where
  "inserted [] = []"
| "inserted (Inserted x # es) = x # inserted es"
| "inserted (e # es) = inserted es"

fun taken :: "event list \<Rightarrow> c_int list" where
  "taken [] = []"
| "taken (Taken x # es) = x # taken es"
| "taken (e # es) = taken es"

section \<open>The request handler (torero-serve.cpp)\<close>

subsection \<open>Characters and the two regular expressions\<close>

definition CR :: char where
  "CR = CHR 0x0D"

definition LF :: char where
  "LF = CHR 0x0A"

definition CRLF :: string where
  "CRLF = [CR, LF]"

text \<open>
  The character classes of \<open>std::regex\<close> (ECMAScript grammar, classic locale) on
  bytes: \<open>\s\<close> is \<open>isspace\<close> (space, tab, newline, vertical tab, form feed, carriage
  return), \<open>\d\<close> is \<open>isdigit\<close>, \<open>\w\<close> is a letter, a digit or the underscore.
\<close>

definition isspace :: "char \<Rightarrow> bool" where
  "isspace c =
     (c = CHR '' '' \<or> c = CHR 0x09 \<or> c = CHR 0x0A \<or> c = CHR 0x0B \<or> c = CHR 0x0C \<or> c = CHR 0x0D)"

definition isdigit :: "char \<Rightarrow> bool" where
  "isdigit c = (let n = (of_char c :: nat) in 48 \<le> n \<and> n \<le> 57)"

definition isalpha :: "char \<Rightarrow> bool" where
  "isalpha c =
     (let n = (of_char c :: nat) in (65 \<le> n \<and> n \<le> 90) \<or> (97 \<le> n \<and> n \<le> 122))"

definition word_char :: "char \<Rightarrow> bool" where
  "word_char c = (isalpha c \<or> isdigit c \<or> c = CHR ''_'')"

text \<open>The bracket expression \<open>[\w\-\./]\<close>.\<close>

definition path_char :: "char \<Rightarrow> bool" where
  "path_char c = (word_char c \<or> c = CHR ''-'' \<or> c = CHR ''.'' \<or> c = CHR ''/'')"

text \<open>
  Both regular expressions of the source are sequences of single characters, character
  classes and starred character classes, so a pattern is a list of pieces: \<open>One P\<close>
  takes one character of the class \<open>P\<close>, \<open>Many P\<close> is \<open>P*\<close>. \<open>match_here\<close> matches a
  pattern at the start of a string the way the backtracking matcher does: a star takes
  as many characters as it can and gives them back one by one when the rest of the
  pattern fails. The result is the matched text (\<open>match[0]\<close>).
\<close>

datatype piece = One "char \<Rightarrow> bool" | Many "char \<Rightarrow> bool"

fun match_here :: "piece list \<Rightarrow> string \<Rightarrow> string option" where
  "match_here [] s = Some []"
| "match_here (One P # r) [] = None"
| "match_here (One P # r) (c # s) =
     (if P c then map_option ((#) c) (match_here r s) else None)"
| "match_here (Many P # r) [] = match_here r []"
| "match_here (Many P # r) (c # s) =
     (if P c then
        (case match_here (Many P # r) s of
           Some m \<Rightarrow> Some (c # m)
         | None \<Rightarrow> match_here r (c # s))
      else match_here r (c # s))"

text \<open>\<open>std::regex_search\<close>: the match at the leftmost position that has one.\<close>

fun regex_search :: "piece list \<Rightarrow> string \<Rightarrow> string option" where
  "regex_search re [] = match_here re []"
| "regex_search re (c # s) =
     (case match_here re (c # s) of
        Some m \<Rightarrow> Some m
      | None \<Rightarrow> regex_search re s)"

definition lit :: "string \<Rightarrow> piece list" where
  "lit s = map (\<lambda>c. One (\<lambda>x. x = c)) s"

text \<open>\<^verbatim>\<open>(GET\s[\w\-\./]*\sHTTP/\d\.\d)\<close> in \<open>validGET\<close>.\<close>

definition http_request_regex :: "piece list" where
  "http_request_regex =
     lit ''GET'' @ [One isspace, Many path_char, One isspace] @ lit ''HTTP/'' @
     [One isdigit] @ lit ''.'' @ [One isdigit]"

definition validGET :: "string \<Rightarrow> bool" where
  "validGET request = (regex_search http_request_regex request \<noteq> None)"

text \<open>\<^verbatim>\<open>(\.\w*)\<close> in \<open>sendHeader\<close>.\<close>

definition rgx :: "piece list" where
  "rgx = lit ''.'' @ [Many word_char]"

subsection \<open>Decimal numbers\<close>

text \<open>\<open>std::to_string\<close> and \<open>operator<<\<close> on an unsigned size: decimal digits.\<close>

definition digit_char :: "nat \<Rightarrow> char" where
  "digit_char d = char_of (48 + d)"

function to_string :: "nat \<Rightarrow> string" where
  "to_string n =
     (if n < 10 then [digit_char n] else to_string (n div 10) @ [digit_char (n mod 10)])"
  by pat_completeness auto
termination
  by (relation "measure (\<lambda>n. n)") auto

declare to_string.simps [simp del]

subsection \<open>The socket\<close>

text \<open>
  A connected socket, as far as the handler can tell: \<open>incoming\<close> are the bytes its
  one \<open>recv\<close> finds (\<open>None\<close> when \<open>recv\<close> returns -1), \<open>sent\<close> the bytes written to the peer
  so far, \<open>closed\<close> whether \<open>close\<close> was called, and \<open>accepts\<close> how many more bytes
  the peer takes before \<open>send\<close> starts to return -1 (\<open>None\<close>: no limit).
\<close>

record socket =
  incoming :: "string option"
  sent :: string
  closed :: bool
  accepts :: "nat option"

text \<open>
  The exceptions of the source and the one loop that may not end: \<open>RecvFailed\<close> and
  \<open>SendFailed\<close> are the \<open>std::system_error\<close>s of \<open>receiveData\<close> and \<open>sendData\<close>,
  \<open>FilesystemError\<close> is the \<open>filesystem_error\<close> of \<open>fs::file_size\<close> and
  \<open>fs::directory_iterator\<close>, and \<open>NeverReturns\<close> is the loop of \<open>sendFile\<close> on a
  stream that never reports end of file.
\<close>

datatype error = RecvFailed | SendFailed | FilesystemError | NeverReturns

definition bindE :: "error + 'a \<Rightarrow> ('a \<Rightarrow> error + 'b) \<Rightarrow> error + 'b" where
  "bindE m f = (case m of Inl e \<Rightarrow> Inl e | Inr x \<Rightarrow> f x)"

definition BUFFER_SIZE :: nat where
  "BUFFER_SIZE = 2048"

text \<open>
  \<open>sendData\<close> loops over \<open>send\<close> until every byte is written and throws when \<open>send\<close>
  returns -1; with no byte to write it does not call \<open>send\<close> at all. The model writes
  the whole of \<open>data\<close> or fails.
\<close>

definition sendData :: "socket \<Rightarrow> string \<Rightarrow> error + socket" where
  "sendData socked_fd data =
     (if data = [] then Inr socked_fd
      else if closed socked_fd then Inl SendFailed
      else
        (case accepts socked_fd of
           None \<Rightarrow> Inr (socked_fd\<lparr>sent := sent socked_fd @ data\<rparr>)
         | Some n \<Rightarrow>
             if length data \<le> n
             then Inr (socked_fd\<lparr>sent := sent socked_fd @ data, accepts := Some (n - length data)\<rparr>)
             else Inl SendFailed))"

definition receiveData :: "socket \<Rightarrow> nat \<Rightarrow> error + (string \<times> socket)" where
  "receiveData socked_fd buff_size =
     (case incoming socked_fd of
        None \<Rightarrow> Inl RecvFailed
      | Some bytes \<Rightarrow>
          Inr (take buff_size bytes, socked_fd\<lparr>incoming := Some (drop buff_size bytes)\<rparr>))"

definition close_socket :: "socket \<Rightarrow> socket" where
  "close_socket s = s\<lparr>closed := True\<rparr>"

subsection \<open>The filesystem\<close>

text \<open>
  The filesystem is a collaborator of the handler; the model takes its answers as a
  parameter, one function for each thing the source asks of it:
  \<^item> \<open>ifstream_good p\<close>: \<open>std::ifstream(p).good()\<close>, whether the file opens for reading;
  \<^item> \<open>ifstream_bytes p\<close>: the bytes \<open>read\<close> delivers from a stream on \<open>p\<close> until it
    reports end of file, \<open>None\<close> when it never does (the stream is not open or reading
    fails, so that \<open>eof()\<close> stays false);
  \<^item> \<open>is_directory p\<close>, \<open>is_regular_file p\<close>: the functions of \<open>std::filesystem\<close>;
  \<^item> \<open>file_size p\<close>: \<open>fs::file_size\<close>, \<open>None\<close> when it throws;
  \<^item> \<open>directory_iterator p\<close>: the file names of the entries in iteration order
    (without \<open>.\<close> and \<open>..\<close>), \<open>None\<close> when the constructor throws.
\<close>

record filesys =
  ifstream_good :: "string \<Rightarrow> bool"
  ifstream_bytes :: "string \<Rightarrow> string option"
  is_directory :: "string \<Rightarrow> bool"
  is_regular_file :: "string \<Rightarrow> bool"
  file_size :: "string \<Rightarrow> nat option"
  directory_iterator :: "string \<Rightarrow> string list option"

definition fileExists :: "filesys \<Rightarrow> string \<Rightarrow> bool" where
  "fileExists fs filename = ifstream_good fs filename"

definition isDirectory :: "filesys \<Rightarrow> string \<Rightarrow> bool" where
  "isDirectory fs filename = is_directory fs filename"

text \<open>
  \<open>item.path()\<close> of a directory entry is the iterated path joined with the entry's
  name by \<open>operator/\<close>, which puts a separator between them unless the path already
  ends in one.
\<close>

definition item_path :: "string \<Rightarrow> string \<Rightarrow> string" where
  "item_path dir name =
     (if dir = [] then name
      else if last dir = CHR ''/'' then dir @ name
      else dir @ ''/'' @ name)"

subsection \<open>The path token of a request\<close>

text \<open>
  \<open>std::getline(f, str, delim)\<close> on a string stream, whose state is the unread input
  and whether the stream is still good. On a stream that is not good it fails and leaves
  \<open>str\<close> as it is. Otherwise it replaces \<open>str\<close> by the input up to the next
  delimiter, which it consumes; when there is no delimiter it takes the whole input and
  the stream reaches end of file, so it is not good afterwards.
\<close>

definition getline :: "string \<times> bool \<Rightarrow> string \<Rightarrow> char \<Rightarrow> (string \<times> bool) \<times> string" where
  "getline f str delim =
     (case f of (input, good) \<Rightarrow>
        if \<not> good then ((input, False), str)
        else if delim \<in> set input
        then ((tl (dropWhile (\<lambda>c. c \<noteq> delim) input), True), takeWhile (\<lambda>c. c \<noteq> delim) input)
        else (([], False), input))"

text \<open>
  The lines of \<open>handleClient\<close> that tokenize the path: a stream on the request and
  two calls of \<open>getline\<close> into the same variable \<open>filename\<close>.
\<close>

definition request_filename :: "string \<Rightarrow> string" where
  "request_filename request_string =
     (let f = (request_string, True);
          (f1, filename1) = getline f [] CHR '' '';
          (f2, filename) = getline f1 filename1 CHR '' ''
      in filename)"

subsection \<open>The responses\<close>

definition sendBad :: "socket \<Rightarrow> error + socket" where
  "sendBad client_sock = sendData client_sock (''HTTP/1.0 400 BAD REQUEST'' @ CRLF)"

definition sendNotFound :: "socket \<Rightarrow> error + socket" where
  "sendNotFound client_sock = sendData client_sock (''HTTP/1.0 404 NOT FOUND'' @ CRLF)"

definition sendOK :: "socket \<Rightarrow> error + socket" where
  "sendOK client_sock = sendData client_sock (''HTTP/1.0 200 OK'' @ CRLF)"

text \<open>
  The loop of \<open>sendFile\<close> on the bytes the stream still has: \<open>read\<close> takes up to
  4096 of them and sets \<open>eof\<close> when it got fewer than it asked for; what it got is sent,
  and the loop goes on while \<open>eof\<close> is not set.
\<close>

function sendFile_loop :: "socket \<Rightarrow> string \<Rightarrow> error + socket" where
  "sendFile_loop client_sock unread =
     (case sendData client_sock (take 4096 unread) of
        Inl e \<Rightarrow> Inl e
      | Inr s \<Rightarrow>
          if length unread < 4096 then Inr s
          else sendFile_loop s (drop 4096 unread))"
  by pat_completeness auto
termination
  by (relation "measure (\<lambda>(s, unread). length unread)") auto

declare sendFile_loop.simps [simp del]

definition sendFile :: "filesys \<Rightarrow> socket \<Rightarrow> string \<Rightarrow> error + socket" where
  "sendFile fs client_sock filename =
     (case ifstream_bytes fs filename of
        None \<Rightarrow> Inl NeverReturns
      | Some bytes \<Rightarrow>
          bindE (sendFile_loop client_sock bytes) (\<lambda>s. sendData s CRLF))"

text \<open>The chain of comparisons of \<open>match[0]\<close> in \<open>sendHeader\<close>.\<close>

definition content_type :: "string \<Rightarrow> string" where
  "content_type m =
     (if m = ''.html'' then ''text/html''
      else if m = ''.css'' then ''text/css''
      else if m = ''.jpg'' then ''image/jpeg''
      else if m = ''.gif'' then ''image/gif''
      else if m = ''.png'' then ''image/png''
      else if m = ''.pdf'' then ''application/pdf''
      else ''text/plain'')"

definition sendHeader :: "filesys \<Rightarrow> socket \<Rightarrow> string \<Rightarrow> error + socket" where
  "sendHeader fs client_sock filename =
     (case regex_search rgx filename of
        None \<Rightarrow> Inr client_sock
      | Some m \<Rightarrow>
          (case file_size fs filename of
             None \<Rightarrow> Inl FilesystemError
           | Some n \<Rightarrow>
               sendData client_sock
                 (''Content-Type: '' @ content_type m @ CRLF @
                  ''Content-Length: '' @ to_string n @ CRLF @
                  CRLF)))"

definition error_page :: string where
  "error_page =
     ''<html>'' @ CRLF @
     ''<head>'' @ CRLF @
     ''<title> Page not found! </title>'' @ CRLF @
     ''</head>'' @ CRLF @
     ''<body> 404 Page Not Found! </body>'' @ CRLF @
     ''</html>'' @ CRLF"

definition sendError :: "socket \<Rightarrow> error + socket" where
  "sendError client_sock =
     sendData client_sock
       (''Content-Type: '' @ ''text/html'' @ CRLF @
        ''Content-Length: '' @ to_string (length error_page) @ CRLF @
        CRLF @ error_page @ CRLF)"

text \<open>
  The loop of \<open>sendHTML\<close> over the entries of the directory, with the page written so
  far in \<open>stream\<close>, and the code after the loop as its last case. An entry named
  \<open>index.html\<close> ends the function at once with that file; any other entry is tested as
  the string \<open>filename\<close> followed by the entry's name.
\<close>

fun sendHTML_loop :: "filesys \<Rightarrow> socket \<Rightarrow> string \<Rightarrow> string list \<Rightarrow> string \<Rightarrow> error + socket" where
  \<open>sendHTML_loop fs client_sock filename [] stream =
     (let html_page = stream @ ''</ul>'' @ CRLF @ ''</body>'' @ CRLF @ ''</html>'' @ CRLF
      in sendData client_sock
           (''Content-Type: '' @ ''text/html'' @ CRLF @
            ''Content-Length: '' @ to_string (length html_page) @ CRLF @
            CRLF @ html_page @ CRLF))\<close>
| \<open>sendHTML_loop fs client_sock filename (item # items) stream =
     (if item = ''index.html''
      then bindE (sendHeader fs client_sock (item_path filename item))
             (\<lambda>s. sendFile fs s (item_path filename item))
      else if is_regular_file fs (filename @ item)
      then sendHTML_loop fs client_sock filename items
             (stream @ [CHR 0x09] @ ''<li><a href="'' @ item @ ''">'' @ item @ ''</a></li>'' @ CRLF)
      else if is_directory fs (filename @ item)
      then sendHTML_loop fs client_sock filename items
             (stream @ [CHR 0x09] @ ''<li><a href="'' @ item @ ''/">'' @ item @ ''/</a></li>'' @ CRLF)
      else sendHTML_loop fs client_sock filename items stream)\<close>

definition sendHTML :: "filesys \<Rightarrow> socket \<Rightarrow> string \<Rightarrow> error + socket" where
  "sendHTML fs client_sock filename =
     (if \<not> isDirectory fs filename \<and> fileExists fs filename
      then sendData client_sock
             (''Content-Type: '' @ ''text/html'' @ CRLF @
              ''Content-Length: '' @ to_string (length error_page) @ CRLF @
              CRLF @ error_page @ CRLF)
      else
        (case directory_iterator fs filename of
           None \<Rightarrow> Inl FilesystemError
         | Some items \<Rightarrow>
             sendHTML_loop fs client_sock filename items
               (''<html>'' @ CRLF @
                ''<head>'' @ ''<title></title>'' @ ''</head>'' @ CRLF @
                ''<body>'' @ CRLF @
                ''<ul>'' @ CRLF)))"

subsection \<open>handleClient\<close>

text \<open>
  The two early \<open>return\<close>s of the source (after \<open>sendBad\<close>, and after \<open>sendNotFound\<close>
  and \<open>sendError\<close>) leave the function before its last statement, \<open>close(client_sock)\<close>.
\<close>

definition handleClient :: "filesys \<Rightarrow> socket \<Rightarrow> string \<Rightarrow> error + socket" where
  "handleClient fs client_sock root =
     (case receiveData client_sock BUFFER_SIZE of
        Inl e \<Rightarrow> Inl e
      | Inr (request_string, sock) \<Rightarrow>
          if \<not> validGET request_string then sendBad sock
          else
            let filename = request_filename request_string;
                root' = root @ filename
            in
              if \<not> fileExists fs root' \<and> \<not> isDirectory fs root'
              then bindE (sendNotFound sock) sendError
              else
                bindE (sendOK sock) (\<lambda>s1.
                bindE (if isDirectory fs root' then sendHTML fs s1 root'
                       else if fileExists fs root'
                       then bindE (sendHeader fs s1 root') (\<lambda>s2. sendFile fs s2 root')
                       else Inr s1) (\<lambda>s3.
                Inr (close_socket s3))))"

subsection \<open>A filesystem given by a table\<close>

text \<open>
  For concrete runs, a filesystem built from a table of path strings: a regular file
  with its bytes, a directory with the names of its entries, or a file of another kind
  (a FIFO, a socket). A path that is not in the table does not exist. Every path string
  the handler can ask about has a line of its own; \<open>/srv/pub\<close> and \<open>/srv/pub/\<close> are
  two lines. A stream on a directory opens, but its reads fail.
\<close>

datatype node = RegularFile string | Directory "string list" | OtherFile

definition table_fs :: "(string \<times> node) list \<Rightarrow> filesys" where
  \<open>table_fs table =
     \<lparr>ifstream_good = (\<lambda>p. map_of table p \<noteq> None),
      ifstream_bytes = (\<lambda>p. case map_of table p of Some (RegularFile bytes) \<Rightarrow> Some bytes | _ \<Rightarrow> None),
      is_directory = (\<lambda>p. case map_of table p of Some (Directory names) \<Rightarrow> True | _ \<Rightarrow> False),
      is_regular_file = (\<lambda>p. case map_of table p of Some (RegularFile bytes) \<Rightarrow> True | _ \<Rightarrow> False),
      file_size = (\<lambda>p. case map_of table p of Some (RegularFile bytes) \<Rightarrow> Some (length bytes) | _ \<Rightarrow> None),
      directory_iterator = (\<lambda>p. case map_of table p of Some (Directory names) \<Rightarrow> Some names | _ \<Rightarrow> None)\<rparr>\<close>

definition fresh_socket :: "string \<Rightarrow> socket" where
  "fresh_socket request = \<lparr>incoming = Some request, sent = [], closed = False, accepts = None\<rparr>"

section \<open>Definitions for the statements\<close>

subsection \<open>The buffer\<close>

text \<open>
  The invariant of the buffer with capacity \<open>C\<close>: \<open>count\<close> lies between 0 and the
  capacity and is the number of elements of the queue.
\<close>

definition bb_inv :: "c_int \<Rightarrow> BoundedBuffer \<Rightarrow> bool" where
  "bb_inv C b = (capacity b = C \<and> 0 \<le> sint (count b) \<and> sint (count b) \<le> sint C
      \<and> sint (count b) = int (length (buffer b)))"

text \<open>
  The reference queue of the specification: \<open>put\<close> waits while the queue holds
  \<open>C\<close> items and otherwise appends at the tail; \<open>take\<close> waits while the queue is
  empty and otherwise removes the head item and returns it.
\<close>

fun fifo_step :: "nat \<Rightarrow> call \<Rightarrow> c_int list \<Rightarrow> event \<times> c_int list" where
  "fifo_step C (PutItem x) q =
     (if length q = C then (Waiting (PutItem x), q) else (Inserted x, q @ [x]))"
| "fifo_step C GetItem q =
     (case q of [] \<Rightarrow> (Waiting GetItem, q) | x # q' \<Rightarrow> (Taken x, q'))"

fun fifo_run :: "nat \<Rightarrow> call list \<Rightarrow> c_int list \<Rightarrow> event list \<times> c_int list" where
  "fifo_run C [] q = ([], q)"
| "fifo_run C (c # cs) q =
     (case fifo_step C c q of (e, q') \<Rightarrow>
        (case fifo_run C cs q' of (es, q'') \<Rightarrow> (e # es, q'')))"

subsection \<open>The request handler\<close>

text \<open>
  The strings a pattern matches, as a set: \<open>One P\<close> stands for one character of the
  class, \<open>Many P\<close> for any number of them.
\<close>

fun matches :: "piece list \<Rightarrow> string \<Rightarrow> bool" where
  "matches [] m = (m = [])"
| "matches (One P # r) m = (\<exists>c m'. m = c # m' \<and> P c \<and> matches r m')"
| "matches (Many P # r) m = (\<exists>cs m'. m = cs @ m' \<and> list_all P cs \<and> matches r m')"

text \<open>
  A request buffer contains a match of the regular expression of \<open>validGET\<close>: the
  letters \<open>GET\<close>, one whitespace character, any number of path characters, one
  whitespace character, \<open>HTTP/\<close>, a digit, a dot and a digit.

  \<open>claimed_request_pattern\<close> is the pattern as the specification writes it,
  \<^verbatim>\<open>GET <path> HTTP/<digit>.<digit>\<close>, with one space on each side of the path.
\<close>

definition request_pattern :: "string \<Rightarrow> bool" where
  "request_pattern r =
     (\<exists>pre w1 path w2 d1 d2 post.
        r = pre @ ''GET'' @ [w1] @ path @ [w2] @ ''HTTP/'' @ [d1] @ ''.'' @ [d2] @ post \<and>
        isspace w1 \<and> list_all path_char path \<and> isspace w2 \<and> isdigit d1 \<and> isdigit d2)"

definition claimed_request_pattern :: "string \<Rightarrow> bool" where
  "claimed_request_pattern r =
     (\<exists>pre path d1 d2 post.
        r = pre @ ''GET '' @ path @ '' HTTP/'' @ [d1] @ ''.'' @ [d2] @ post \<and>
        list_all path_char path \<and> isdigit d1 \<and> isdigit d2)"

text \<open>A socket that is open and whose peer takes every byte.\<close>

definition writable :: "socket \<Rightarrow> bool" where
  "writable s = (\<not> closed s \<and> accepts s = None)"

text \<open>
  The table of the specification, from a file extension (without its dot) to the value
  of \<open>Content-Type\<close>; then the files of the concrete runs below, under the server
  root \<open>/srv/www\<close>.
\<close>

definition mime_type :: "string \<Rightarrow> string" where
  "mime_type ext =
     (if ext = ''html'' then ''text/html''
      else if ext = ''css'' then ''text/css''
      else if ext = ''jpg'' then ''image/jpeg''
      else if ext = ''gif'' then ''image/gif''
      else if ext = ''png'' then ''image/png''
      else if ext = ''pdf'' then ''application/pdf''
      else ''text/plain'')"

definition example_files :: "(string \<times> node) list" where
  "example_files =
     [(''/srv/www/index.html'', RegularFile ''Forty-two bytes of plain text in one file.''),
      (''/srv/www/README'', RegularFile ''plain words''),
      (''/srv/www/LICENSE'', RegularFile ''free''),
      (''/srv/www/subdir/'', Directory [''a.txt'', ''b'']),
      (''/srv/www/subdir/a.txt'', RegularFile ''abc''),
      (''/srv/www/subdir/b'', Directory []),
      (''/srv/www/pub/'', Directory [''a.txt'', ''pipe'']),
      (''/srv/www/pub/a.txt'', RegularFile ''abc''),
      (''/srv/www/pub/pipe'', OtherFile),
      (''/srv/www/site/'', Directory [''x.css'', ''index.html'', ''y.css'']),
      (''/srv/www/site/x.css'', RegularFile ''p {}''),
      (''/srv/www/site/y.css'', RegularFile ''q {}''),
      (''/srv/www/site/index.html'', RegularFile ''<p>hi</p>'')]"

text \<open>
  The page of a directory listing as the specification describes it: one list item with
  a hyperlink for every entry that is a regular file, the same with a trailing slash in
  both the link text and the \<open>href\<close> for every entry that is a directory, nothing for
  an entry that is neither, between the fixed opening and closing lines.
\<close>

definition hyperlink :: "string \<Rightarrow> string" where
  \<open>hyperlink name = ''<a href="'' @ name @ ''">'' @ name @ ''</a>''\<close>

definition list_item :: "string \<Rightarrow> string" where
  "list_item name = [CHR 0x09] @ ''<li>'' @ hyperlink name @ ''</li>'' @ CRLF"

definition entry_line :: "filesys \<Rightarrow> string \<Rightarrow> string \<Rightarrow> string" where
  "entry_line fs dir name =
     (if is_regular_file fs (item_path dir name) then list_item name
      else if is_directory fs (item_path dir name) then list_item (name @ ''/'')
      else [])"

definition listing_page :: "filesys \<Rightarrow> string \<Rightarrow> string list \<Rightarrow> string" where
  "listing_page fs dir names =
     ''<html>'' @ CRLF @
     ''<head><title></title></head>'' @ CRLF @
     ''<body>'' @ CRLF @
     ''<ul>'' @ CRLF @
     concat (map (entry_line fs dir) names) @
     ''</ul>'' @ CRLF @
     ''</body>'' @ CRLF @
     ''</html>'' @ CRLF"

text \<open>
  A body behind its two headers: \<open>Content-Type\<close>, \<open>Content-Length\<close> with the length
  of the body in decimal, a blank line, the body, and the two-byte terminator.
\<close>

definition with_headers :: "string \<Rightarrow> string \<Rightarrow> string" where
  "with_headers type body =
     ''Content-Type: '' @ type @ CRLF @
     ''Content-Length: '' @ to_string (length body) @ CRLF @
     CRLF @ body @ CRLF"

text \<open>
  A response as a client reads it. \<open>after_blank_line\<close> is what follows the first
  blank line (the first CRLF CRLF), \<open>header_block\<close> what precedes it;
  \<open>header_value name\<close> is the text of the first header line of that name, up to the
  end of its line; \<open>of_decimal\<close> reads a non-empty string of digits as a number.
  \<open>declared_content_length\<close> is the number in the \<open>Content-Length\<close> header of the
  header block.
\<close>

fun after_blank_line :: "string \<Rightarrow> string option" where
  "after_blank_line [] = None"
| "after_blank_line (c # s) =
     (if prefix (CRLF @ CRLF) (c # s) then Some (drop 4 (c # s)) else after_blank_line s)"

fun header_block :: "string \<Rightarrow> string" where
  "header_block [] = []"
| "header_block (c # s) =
     (if prefix (CRLF @ CRLF) (c # s) then [] else c # header_block s)"

fun header_value :: "string \<Rightarrow> string \<Rightarrow> string option" where
  "header_value name [] = None"
| "header_value name (c # s) =
     (if prefix (CRLF @ name @ '': '') (c # s)
      then Some (takeWhile (\<lambda>x. x \<noteq> CR) (drop (length (CRLF @ name @ '': '')) (c # s)))
      else header_value name s)"

definition of_decimal :: "string \<Rightarrow> nat option" where
  "of_decimal ds =
     (if ds \<noteq> [] \<and> list_all isdigit ds
      then Some (foldl (\<lambda>n d. 10 * n + (of_char d - 48)) 0 ds)
      else None)"

definition declared_content_length :: "string \<Rightarrow> nat option" where
  "declared_content_length response =
     (case header_value ''Content-Length'' (header_block response) of
        None \<Rightarrow> None
      | Some ds \<Rightarrow> of_decimal ds)"

text \<open>The seven values \<open>sendHeader\<close> and \<open>sendHTML\<close> can put into \<open>Content-Type\<close>.\<close>

definition known_type :: "string \<Rightarrow> bool" where
  "known_type ty =
     (ty = ''text/html'' \<or> ty = ''text/css'' \<or> ty = ''image/jpeg'' \<or> ty = ''image/gif'' \<or>
      ty = ''image/png'' \<or> ty = ''application/pdf'' \<or> ty = ''text/plain'')"

text \<open>
  The filesystem is consistent about sizes: \<open>file_size\<close> reports the number of bytes
  a stream on the same path delivers.
\<close>

definition sizes_agree :: "filesys \<Rightarrow> bool" where
  "sizes_agree fs =
     (\<forall>q n content. file_size fs q = Some n \<and> ifstream_bytes fs q = Some content \<longrightarrow>
        n = length content)"

section \<open>The buffer: invariant and FIFO order\<close>

lemma sint_succ:
  fixes w C :: c_int
  assumes "sint w < sint C"
  shows "sint (w + 1) = sint w + 1"
proof -
  have "sint C < 2 ^ 31" using sint_lt [of C] by simp
  moreover have "- (2 ^ 31) \<le> sint w" using sint_ge [of w] by simp
  ultimately have "- (2 ^ 31) \<le> sint w + 1" "sint w + 1 < 2 ^ 31" using assms by linarith+
  then show ?thesis
    by (simp add: sint_word_ariths signed_take_bit_int_eq_self)
qed

lemma sint_pred:
  fixes w :: c_int
  assumes "0 < sint w"
  shows "sint (w - 1) = sint w - 1"
proof -
  have "sint w < 2 ^ 31" using sint_lt [of w] by simp
  then have "- (2 ^ 31) \<le> sint w - 1" "sint w - 1 < 2 ^ 31" using assms by linarith+
  then show ?thesis
    by (simp add: sint_word_ariths signed_take_bit_int_eq_self)
qed

lemma putItem_inv:
  assumes "bb_inv C b"
  shows "(putItem x b = Inl Blocked \<and> count b = C) \<or>
         (\<exists>b'. putItem x b = Inr b' \<and> bb_inv C b' \<and> buffer b' = buffer b @ [x] \<and> count b \<noteq> C)"
proof (cases "count b = capacity b")
  case True
  then show ?thesis using assms by (simp add: putItem_def bb_inv_def)
next
  case False
  then have "sint (count b) \<noteq> sint (capacity b)" by (metis signed_word_eqI)
  with assms have lt: "sint (count b) < sint C"
    by (simp add: bb_inv_def)
  have "sint (count b + 1) = sint (count b) + 1" by (rule sint_succ [OF lt])
  with False assms lt show ?thesis
    by (simp add: putItem_def bb_inv_def Let_def)
qed

lemma getItem_inv:
  assumes "bb_inv C b"
  shows "(getItem b = Inl Blocked \<and> count b = 0) \<or>
         (\<exists>x b'. getItem b = Inr (x, b') \<and> bb_inv C b' \<and> buffer b = x # buffer b' \<and> count b \<noteq> 0)"
proof (cases "count b = 0")
  case True
  then show ?thesis by (simp add: getItem_def)
next
  case False
  then have "sint (count b) \<noteq> 0" by (metis sint_0 signed_word_eqI)
  with assms have pos: "0 < sint (count b)" by (simp add: bb_inv_def)
  have eq: "sint (count b - 1) = sint (count b) - 1" by (rule sint_pred [OF pos])
  from pos assms obtain x rest where xr: "buffer b = x # rest"
    by (cases "buffer b") (auto simp: bb_inv_def)
  with False assms pos eq show ?thesis
    by (simp add: getItem_def bb_inv_def Let_def)
qed

lemma step_inv:
  assumes "bb_inv C b"
  shows "\<exists>e b'. step c b = Some (e, b') \<and> bb_inv C b' \<and>
           buffer b @ inserted [e] = taken [e] @ buffer b'"
proof (cases c)
  case (PutItem x)
  with putItem_inv [OF assms, of x] assms show ?thesis by auto
next
  case GetItem
  with getItem_inv [OF assms] assms show ?thesis by auto
qed

lemma inserted_Cons: "inserted (e # es) = inserted [e] @ inserted es"
  by (cases e) simp_all

lemma taken_Cons: "taken (e # es) = taken [e] @ taken es"
  by (cases e) simp_all

lemma run_inv:
  assumes "bb_inv C b"
  shows "\<exists>es b'. run cs b = Some (es, b') \<and> bb_inv C b' \<and>
           buffer b @ inserted es = taken es @ buffer b'"
  using assms
proof (induction cs arbitrary: b)
  case Nil
  then show ?case by simp
next
  case (Cons c cs)
  from step_inv [OF Cons.prems, of c] obtain e b1 where
    s: "step c b = Some (e, b1)" and i: "bb_inv C b1"
    and f: "buffer b @ inserted [e] = taken [e] @ buffer b1" by blast
  from Cons.IH [OF i] obtain es b2 where
    r: "run cs b1 = Some (es, b2)" and i2: "bb_inv C b2"
    and f2: "buffer b1 @ inserted es = taken es @ buffer b2" by blast
  have "buffer b @ inserted (e # es) = buffer b @ inserted [e] @ inserted es"
    using inserted_Cons [of e es] by simp
  also have "\<dots> = taken [e] @ buffer b1 @ inserted es" using f by simp
  also have "\<dots> = taken [e] @ taken es @ buffer b2" using f2 by simp
  also have "\<dots> = taken (e # es) @ buffer b2" using taken_Cons [of e es] by simp
  finally show ?case using s r i2 by simp
qed

lemma new_inv: "0 \<le>s C \<Longrightarrow> bb_inv C (new_BoundedBuffer C)"
  by (simp add: bb_inv_def new_BoundedBuffer_def word_sle_eq)

lemma bb_inv_full:
  assumes "bb_inv C b"
  shows "count b = C \<longleftrightarrow> length (buffer b) = nat (sint C)"
proof -
  have "count b = C \<longleftrightarrow> sint (count b) = sint C"
    by (metis signed_word_eqI)
  with assms show ?thesis by (auto simp: bb_inv_def)
qed

lemma step_fifo:
  assumes "bb_inv C b" and "step c b = Some (e, b')"
  shows "fifo_step (nat (sint C)) c (buffer b) = (e, buffer b')"
proof (cases c)
  case (PutItem x)
  with putItem_inv [OF assms(1), of x] assms(2) bb_inv_full [OF assms(1)]
  show ?thesis by auto
next
  case GetItem
  with getItem_inv [OF assms(1)] assms(2) assms(1)
  show ?thesis by (auto simp: bb_inv_def)
qed

lemma run_fifo:
  assumes "bb_inv C b" and "run cs b = Some (es, b')"
  shows "fifo_run (nat (sint C)) cs (buffer b) = (es, buffer b')"
  using assms
proof (induction cs arbitrary: b es)
  case Nil
  then show ?case by simp
next
  case (Cons c cs)
  from step_inv [OF Cons.prems(1), of c] obtain e b1 where
    s: "step c b = Some (e, b1)" and i: "bb_inv C b1" by blast
  with Cons.prems(2) obtain es1 where r: "run cs b1 = Some (es1, b')" and es: "es = e # es1"
    by (auto split: option.splits)
  from Cons.IH [OF i r] step_fifo [OF Cons.prems(1) s] es show ?case by simp
qed

text \<open>
  C1: for every capacity \<open>C \<ge> 1\<close> and every sequence of \<open>putItem\<close> and \<open>getItem\<close>
  calls on a new buffer of that capacity, the run is defined and \<open>count\<close> stays within
  \<open>0 .. C\<close>; in the state reached, \<open>putItem\<close> waits exactly when \<open>count = C\<close> and
  otherwise increments \<open>count\<close> and appends the item, and \<open>getItem\<close> waits exactly when
  \<open>count = 0\<close> and otherwise decrements \<open>count\<close> and removes the head item.
\<close>

theorem count_within_capacity:
  assumes "1 \<le>s C"
  shows "\<exists>es b. run cs (new_BoundedBuffer C) = Some (es, b) \<and>
           0 \<le>s count b \<and> count b \<le>s C \<and>
           (\<forall>x. if count b = C then putItem x b = Inl Blocked
                else \<exists>b'. putItem x b = Inr b' \<and> count b' = count b + 1 \<and>
                       buffer b' = buffer b @ [x]) \<and>
           (if count b = 0 then getItem b = Inl Blocked
            else \<exists>x b'. getItem b = Inr (x, b') \<and> count b' = count b - 1 \<and>
                   buffer b = x # buffer b')"
proof -
  from assms have "0 \<le>s C" by (simp add: word_sle_eq)
  from run_inv [OF new_inv [OF this], of cs] obtain es b where
    r: "run cs (new_BoundedBuffer C) = Some (es, b)" and i: "bb_inv C b" by blast
  from i have bounds: "0 \<le>s count b" "count b \<le>s C" by (simp_all add: bb_inv_def word_sle_eq)
  from i have cap: "capacity b = C" by (simp add: bb_inv_def)
  have put: "if count b = C then putItem x b = Inl Blocked
             else \<exists>b'. putItem x b = Inr b' \<and> count b' = count b + 1 \<and>
                    buffer b' = buffer b @ [x]" for x
    using cap by (simp add: putItem_def Let_def)
  have get: "if count b = 0 then getItem b = Inl Blocked
             else \<exists>x b'. getItem b = Inr (x, b') \<and> count b' = count b - 1 \<and>
                    buffer b = x # buffer b'"
    using getItem_inv [OF i] by (auto simp: getItem_def Let_def split: list.splits)
  from r bounds put get show ?thesis by blast
qed

theorem count_within_capacity_witness:
  "(1::c_int) \<le>s 2 \<and>
   (\<exists>es b. run [PutItem 7, PutItem 8, PutItem 9, GetItem] (new_BoundedBuffer 2) = Some (es, b) \<and>
      0 \<le>s count b \<and> count b \<le>s 2 \<and> count b = 1 \<and> buffer b = [8] \<and>
      es = [Inserted 7, Inserted 8, Waiting (PutItem 9), Taken 7])"
  using count_within_capacity [of 2 "[PutItem 7, PutItem 8, PutItem 9, GetItem]"]
  by (simp add: word_sle_eq new_BoundedBuffer_def putItem_def getItem_def Let_def)

text \<open>
  C2: for every sequence of calls on a new buffer of capacity \<open>C \<ge> 1\<close>, the items
  handed out so far followed by the items still queued are the items inserted, in the
  order of insertion: items leave in the order they entered, each at most once, and
  nothing else is ever returned. The events and the queue are those of the reference
  FIFO queue of capacity \<open>C\<close>.
\<close>

theorem fifo_order:
  assumes "1 \<le>s C"
  shows "\<exists>es b. run cs (new_BoundedBuffer C) = Some (es, b) \<and>
           taken es @ buffer b = inserted es \<and>
           fifo_run (nat (sint C)) cs [] = (es, buffer b)"
proof -
  from assms have "0 \<le>s C" by (simp add: word_sle_eq)
  then have i0: "bb_inv C (new_BoundedBuffer C)" by (rule new_inv)
  from run_inv [OF i0, of cs] obtain es b where
    r: "run cs (new_BoundedBuffer C) = Some (es, b)"
    and f: "buffer (new_BoundedBuffer C) @ inserted es = taken es @ buffer b" by blast
  from run_fifo [OF i0 r] have "fifo_run (nat (sint C)) cs [] = (es, buffer b)"
    by (simp add: new_BoundedBuffer_def)
  with r f show ?thesis by (simp add: new_BoundedBuffer_def)
qed

theorem fifo_order_witness:
  "(1::c_int) \<le>s 2 \<and>
   (\<exists>es b. run [PutItem 7, GetItem, GetItem, PutItem 8, PutItem 9, PutItem 7, GetItem]
             (new_BoundedBuffer 2) = Some (es, b) \<and>
      taken es @ buffer b = inserted es \<and> taken es = [7, 8] \<and> buffer b = [9])"
  using fifo_order [of 2 "[PutItem 7, GetItem, GetItem, PutItem 8, PutItem 9, PutItem 7, GetItem]"]
  by (simp add: word_sle_eq new_BoundedBuffer_def putItem_def getItem_def Let_def)

text \<open>
  C9: after every sequence of calls on a new buffer (of capacity at least 0), \<open>count\<close>
  is the number of elements of the internal queue.
\<close>

theorem count_is_queue_size:
  assumes "0 \<le>s C"
  shows "\<exists>es b. run cs (new_BoundedBuffer C) = Some (es, b) \<and>
           sint (count b) = int (length (buffer b))"
proof -
  from run_inv [OF new_inv [OF assms], of cs] obtain es b where
    "run cs (new_BoundedBuffer C) = Some (es, b)" "bb_inv C b" by blast
  then show ?thesis by (auto simp: bb_inv_def)
qed

theorem count_is_queue_size_witness:
  "(0::c_int) \<le>s 3 \<and>
   (\<exists>es b. run [GetItem, PutItem 4, PutItem 5, GetItem, PutItem 6] (new_BoundedBuffer 3) = Some (es, b) \<and>
      sint (count b) = int (length (buffer b)) \<and> count b = 2 \<and> buffer b = [5, 6])"
  using count_is_queue_size [of 3 "[GetItem, PutItem 4, PutItem 5, GetItem, PutItem 6]"]
  by (simp add: word_sle_eq new_BoundedBuffer_def putItem_def getItem_def Let_def)

section \<open>The regular expressions\<close>

lemma matches_ManyI:
  "list_all P cs \<Longrightarrow> matches r m' \<Longrightarrow> matches (Many P # r) (cs @ m')"
  by auto

lemma match_here_sound:
  "match_here re s = Some m \<Longrightarrow> matches re m \<and> prefix m s"
proof (induction re s arbitrary: m rule: match_here.induct)
  case (1 s)
  then show ?case by simp
next
  case (2 P r)
  then show ?case by simp
next
  case (3 P r c s)
  then show ?case by (auto split: if_splits)
next
  case (4 P r)
  from "4.prems" have "match_here r [] = Some m" by simp
  from "4.IH" [OF this] have "matches r m" "prefix m []" by blast+
  with matches_ManyI [of P "[]" r m] show ?case by simp
next
  case (5 P r c s)
  show ?case
  proof (cases "P c")
    case True
    show ?thesis
    proof (cases "match_here (Many P # r) s")
      case None
      with True "5.prems" have "match_here r (c # s) = Some m" by simp
      from "5.IH"(2) [OF True None this] have "matches r m" "prefix m (c # s)" by blast+
      with matches_ManyI [of P "[]" r m] show ?thesis by simp
    next
      case (Some m1)
      with True "5.prems" have m: "m = c # m1" by simp
      from "5.IH"(1) [OF True Some] have ih: "matches (Many P # r) m1" "prefix m1 s"
        by blast+
      from ih(1) obtain cs m' where "m1 = cs @ m'" "list_all P cs" "matches r m'" by auto
      with True m matches_ManyI [of P "c # cs" r m'] have "matches (Many P # r) m" by simp
      with m ih show ?thesis by simp
    qed
  next
    case False
    with "5.prems" have "match_here r (c # s) = Some m" by simp
    from "5.IH"(3) [OF False this] have "matches r m" "prefix m (c # s)" by blast+
    with matches_ManyI [of P "[]" r m] show ?thesis by simp
  qed
qed

lemma match_here_complete:
  "matches re m \<Longrightarrow> prefix m s \<Longrightarrow> match_here re s \<noteq> None"
proof (induction re s arbitrary: m rule: match_here.induct)
  case (1 s)
  then show ?case by simp
next
  case (2 P r)
  then show ?case by auto
next
  case (3 P r c s)
  from "3.prems" obtain m' where m: "m = c # m'" "P c" "matches r m'" "prefix m' s"
    by auto
  from "3.IH" [OF m(2) m(3) m(4)] m(2) show ?case by auto
next
  case (4 P r)
  from "4.prems" have "matches r []" by auto
  from "4.IH" [OF this] show ?case by simp
next
  case (5 P r c s)
  from "5.prems"(1) obtain cs m' where d: "m = cs @ m'" "list_all P cs" "matches r m'"
    by auto
  show ?case
  proof (cases "P c")
    case False
    with d "5.prems"(2) have "cs = []" by (cases cs) auto
    with d have "matches r m" by simp
    from "5.IH"(3) [OF False this "5.prems"(2)] False show ?thesis by simp
  next
    case True
    show ?thesis
    proof (cases "match_here (Many P # r) s")
      case (Some m1)
      with True show ?thesis by simp
    next
      case None
      have "cs = []"
      proof (rule ccontr)
        assume "cs \<noteq> []"
        then obtain cs' where cs: "cs = c # cs'" using d "5.prems"(2) by (cases cs) auto
        with d matches_ManyI [of P cs' r m'] have "matches (Many P # r) (cs' @ m')" by simp
        moreover from cs d "5.prems"(2) have "prefix (cs' @ m') s" by simp
        ultimately have "match_here (Many P # r) s \<noteq> None"
          by (rule "5.IH"(1) [OF True])
        with None show False by simp
      qed
      with d have "matches r m" by simp
      from "5.IH"(2) [OF True None this "5.prems"(2)] True None show ?thesis by simp
    qed
  qed
qed

lemma regex_search_sound:
  "regex_search re s = Some m \<Longrightarrow> \<exists>pre post. s = pre @ m @ post \<and> matches re m"
proof (induction s)
  case Nil
  then have "match_here re [] = Some m" by simp
  from match_here_sound [OF this] have "matches re m" "prefix m []" by blast+
  then have "matches re m" "[] = [] @ m @ []" by simp_all
  then show ?case by blast
next
  case (Cons c s)
  show ?case
  proof (cases "match_here re (c # s)")
    case (Some m1)
    with Cons.prems have "m1 = m" by simp
    with Some have "matches re m" "prefix m (c # s)" using match_here_sound by blast+
    then obtain post where "c # s = m @ post" by (auto simp: prefix_def)
    then have "c # s = [] @ m @ post" by simp
    with \<open>matches re m\<close> show ?thesis by blast
  next
    case None
    with Cons.prems have "regex_search re s = Some m" by simp
    from Cons.IH [OF this] obtain pre post where "s = pre @ m @ post" "matches re m" by blast
    then have "c # s = (c # pre) @ m @ post" by simp
    with \<open>matches re m\<close> show ?thesis by blast
  qed
qed

lemma regex_search_complete:
  "matches re m \<Longrightarrow> \<exists>m'. regex_search re (pre @ m @ post) = Some m'"
proof (induction pre)
  case Nil
  from match_here_complete [OF Nil, of "m @ post"] obtain m' where
    h: "match_here re (m @ post) = Some m'" by auto
  then show ?case by (cases "m @ post") auto
next
  case (Cons c pre)
  then show ?case by (cases "match_here re (c # pre @ m @ post)") auto
qed

lemma regex_search_iff:
  "regex_search re s \<noteq> None \<longleftrightarrow> (\<exists>pre m post. s = pre @ m @ post \<and> matches re m)"
  using regex_search_sound regex_search_complete by (metis not_Some_eq)

lemma matches_lit:
  "matches (lit s @ r) m \<longleftrightarrow> (\<exists>m'. m = s @ m' \<and> matches r m')"
  by (induction s arbitrary: m) (auto simp: lit_def)

lemma matches_One_last:
  "matches [One P] m \<longleftrightarrow> (\<exists>c. m = [c] \<and> P c)"
  by auto

lemma matches_OneD:
  "matches (One P # r) m \<Longrightarrow> \<exists>c m'. m = c # m' \<and> P c \<and> matches r m'"
  by simp

lemma matches_ManyD:
  "matches (Many P # r) m \<Longrightarrow> \<exists>cs m'. m = cs @ m' \<and> list_all P cs \<and> matches r m'"
  by simp

lemma matches_OneI:
  "P c \<Longrightarrow> matches r m \<Longrightarrow> matches (One P # r) (c # m)"
  by simp

lemma matches_http_request_regex:
  "matches http_request_regex m \<longleftrightarrow>
     (\<exists>w1 path w2 d1 d2.
        m = ''GET'' @ [w1] @ path @ [w2] @ ''HTTP/'' @ [d1] @ ''.'' @ [d2] \<and>
        isspace w1 \<and> list_all path_char path \<and> isspace w2 \<and> isdigit d1 \<and> isdigit d2)"
  (is "?L \<longleftrightarrow> ?R")
proof
  assume ?L
  then have "matches (lit ''GET'' @ One isspace # Many path_char # One isspace # lit ''HTTP/'' @
                One isdigit # lit ''.'' @ [One isdigit]) m"
    by (simp add: http_request_regex_def)
  then obtain m1 where m1: "m = ''GET'' @ m1"
    and r1: "matches (One isspace # Many path_char # One isspace # lit ''HTTP/'' @
                One isdigit # lit ''.'' @ [One isdigit]) m1"
    unfolding matches_lit by blast
  from matches_OneD [OF r1] obtain w1 m2 where m2: "m1 = w1 # m2" and w1: "isspace w1"
    and r2: "matches (Many path_char # One isspace # lit ''HTTP/'' @
                One isdigit # lit ''.'' @ [One isdigit]) m2"
    by blast
  from matches_ManyD [OF r2] obtain path m3 where m3: "m2 = path @ m3"
    and path: "list_all path_char path"
    and r3: "matches (One isspace # lit ''HTTP/'' @ One isdigit # lit ''.'' @ [One isdigit]) m3"
    by blast
  from matches_OneD [OF r3] obtain w2 m4 where m4: "m3 = w2 # m4" and w2: "isspace w2"
    and r4: "matches (lit ''HTTP/'' @ One isdigit # lit ''.'' @ [One isdigit]) m4"
    by blast
  from r4 obtain m5 where m5: "m4 = ''HTTP/'' @ m5"
    and r5: "matches (One isdigit # lit ''.'' @ [One isdigit]) m5"
    unfolding matches_lit by blast
  from matches_OneD [OF r5] obtain d1 m6 where m6: "m5 = d1 # m6" and d1: "isdigit d1"
    and r6: "matches (lit ''.'' @ [One isdigit]) m6"
    by blast
  from r6 obtain m7 where m7: "m6 = ''.'' @ m7" and r7: "matches [One isdigit] m7"
    unfolding matches_lit by blast
  from r7 obtain d2 where m8: "m7 = [d2]" and d2: "isdigit d2"
    unfolding matches_One_last by blast
  have "m = ''GET'' @ [w1] @ path @ [w2] @ ''HTTP/'' @ [d1] @ ''.'' @ [d2]"
    by (simp add: m1 m2 m3 m4 m5 m6 m7 m8)
  with w1 path w2 d1 d2 show ?R by blast
next
  assume ?R
  then obtain w1 path w2 d1 d2 where
    m: "m = ''GET'' @ [w1] @ path @ [w2] @ ''HTTP/'' @ [d1] @ ''.'' @ [d2]"
    and c: "isspace w1" "list_all path_char path" "isspace w2" "isdigit d1" "isdigit d2"
    by blast
  have r7: "matches [One isdigit] [d2]" unfolding matches_One_last using c(5) by blast
  then have r6: "matches (lit ''.'' @ [One isdigit]) (''.'' @ [d2])"
    unfolding matches_lit by blast
  from matches_OneI [of isdigit d1, OF c(4) r6]
  have r5: "matches (One isdigit # lit ''.'' @ [One isdigit]) (d1 # ''.'' @ [d2])" .
  then have r4: "matches (lit ''HTTP/'' @ One isdigit # lit ''.'' @ [One isdigit])
                   (''HTTP/'' @ d1 # ''.'' @ [d2])"
    unfolding matches_lit by blast
  from matches_OneI [of isspace w2, OF c(3) r4]
  have r3: "matches (One isspace # lit ''HTTP/'' @ One isdigit # lit ''.'' @ [One isdigit])
                   (w2 # ''HTTP/'' @ d1 # ''.'' @ [d2])" .
  from matches_ManyI [of path_char path, OF c(2) r3]
  have r2: "matches (Many path_char # One isspace # lit ''HTTP/'' @ One isdigit # lit ''.'' @ [One isdigit])
                   (path @ w2 # ''HTTP/'' @ d1 # ''.'' @ [d2])" .
  from matches_OneI [of isspace w1, OF c(1) r2]
  have r1: "matches (One isspace # Many path_char # One isspace # lit ''HTTP/'' @ One isdigit # lit ''.'' @ [One isdigit])
                   (w1 # path @ w2 # ''HTTP/'' @ d1 # ''.'' @ [d2])" .
  then have "matches (lit ''GET'' @ One isspace # Many path_char # One isspace # lit ''HTTP/'' @
                One isdigit # lit ''.'' @ [One isdigit]) (''GET'' @ w1 # path @ w2 # ''HTTP/'' @ d1 # ''.'' @ [d2])"
    unfolding matches_lit by blast
  then show ?L
    by (simp add: http_request_regex_def m)
qed

lemma validGET_iff: "validGET r \<longleftrightarrow> request_pattern r"
proof
  assume "validGET r"
  then obtain pre m post where r: "r = pre @ m @ post" and m: "matches http_request_regex m"
    unfolding validGET_def regex_search_iff by blast
  from m obtain w1 path w2 d1 d2 where
    m': "m = ''GET'' @ [w1] @ path @ [w2] @ ''HTTP/'' @ [d1] @ ''.'' @ [d2]"
    and c: "isspace w1" "list_all path_char path" "isspace w2" "isdigit d1" "isdigit d2"
    unfolding matches_http_request_regex by blast
  from r m' have "r = pre @ ''GET'' @ [w1] @ path @ [w2] @ ''HTTP/'' @ [d1] @ ''.'' @ [d2] @ post"
    by simp
  with c show "request_pattern r"
    unfolding request_pattern_def by blast
next
  assume "request_pattern r"
  then obtain pre w1 path w2 d1 d2 post where
    r: "r = pre @ ''GET'' @ [w1] @ path @ [w2] @ ''HTTP/'' @ [d1] @ ''.'' @ [d2] @ post"
    and c: "isspace w1" "list_all path_char path" "isspace w2" "isdigit d1" "isdigit d2"
    unfolding request_pattern_def by blast
  from c have "matches http_request_regex (''GET'' @ [w1] @ path @ [w2] @ ''HTTP/'' @ [d1] @ ''.'' @ [d2])"
    unfolding matches_http_request_regex by blast
  moreover from r have "r = pre @ (''GET'' @ [w1] @ path @ [w2] @ ''HTTP/'' @ [d1] @ ''.'' @ [d2]) @ post"
    by simp
  ultimately show "validGET r"
    unfolding validGET_def regex_search_iff by blast
qed

lemma claimed_request_pattern_space:
  assumes "claimed_request_pattern r"
  shows "CHR '' '' \<in> set r"
proof -
  from assms obtain pre path d1 d2 post where
    "r = pre @ ''GET '' @ path @ '' HTTP/'' @ [d1] @ ''.'' @ [d2] @ post"
    unfolding claimed_request_pattern_def by blast
  then show ?thesis by simp
qed

section \<open>Sending\<close>

lemma sendData_writable:
  "writable s \<Longrightarrow> sendData s data = Inr (s\<lparr>sent := sent s @ data\<rparr>)"
  by (simp add: sendData_def writable_def)

lemma writable_update [simp]:
  "writable (s\<lparr>sent := x\<rparr>) = writable s"
  "writable (s\<lparr>incoming := y\<rparr>) = writable s"
  by (simp_all add: writable_def)

lemma sendFile_loop_writable:
  "writable s \<Longrightarrow> sendFile_loop s unread = Inr (s\<lparr>sent := sent s @ unread\<rparr>)"
proof (induction s unread rule: sendFile_loop.induct)
  case (1 s unread)
  let ?s1 = "s\<lparr>sent := sent s @ take 4096 unread\<rparr>"
  have sd: "sendData s (take 4096 unread) = Inr ?s1"
    using "1.prems" by (rule sendData_writable)
  show ?case
  proof (cases "length unread < 4096")
    case True
    with sd show ?thesis by (simp add: sendFile_loop.simps [of s unread])
  next
    case False
    have w: "writable ?s1" using "1.prems" by simp
    from "1.IH" [OF sd False w]
    have "sendFile_loop ?s1 (drop 4096 unread) = Inr (?s1\<lparr>sent := sent ?s1 @ drop 4096 unread\<rparr>)" .
    with sd False show ?thesis by (simp add: sendFile_loop.simps [of s unread])
  qed
qed

lemma sendFile_writable:
  assumes "writable s" and "ifstream_bytes fs filename = Some bytes"
  shows "sendFile fs s filename = Inr (s\<lparr>sent := sent s @ bytes @ CRLF\<rparr>)"
  using assms
  by (simp add: sendFile_def bindE_def sendFile_loop_writable sendData_writable)

lemma sendHeader_writable:
  assumes "writable s"
  shows "sendHeader fs s filename =
     (case regex_search rgx filename of
        None \<Rightarrow> Inr s
      | Some m \<Rightarrow>
          (case file_size fs filename of
             None \<Rightarrow> Inl FilesystemError
           | Some n \<Rightarrow>
               Inr (s\<lparr>sent := sent s @ ''Content-Type: '' @ content_type m @ CRLF @
                      ''Content-Length: '' @ to_string n @ CRLF @ CRLF\<rparr>)))"
  using assms
  by (simp add: sendHeader_def sendData_writable split: option.splits)

lemma receiveData_Some:
  "incoming c = Some bytes \<Longrightarrow>
   receiveData c BUFFER_SIZE = Inr (take BUFFER_SIZE bytes, c\<lparr>incoming := Some (drop BUFFER_SIZE bytes)\<rparr>)"
  by (simp add: receiveData_def)

lemma handleClient_bad_request:
  assumes "incoming c = Some bytes" and "writable c" and "\<not> validGET (take BUFFER_SIZE bytes)"
  shows "handleClient fs c root =
     Inr (c\<lparr>incoming := Some (drop BUFFER_SIZE bytes),
            sent := sent c @ ''HTTP/1.0 400 BAD REQUEST'' @ CRLF\<rparr>)"
  using assms
  by (simp add: handleClient_def receiveData_Some sendBad_def sendData_writable)

lemma handleClient_not_found:
  assumes "incoming c = Some bytes" and "writable c" and "validGET (take BUFFER_SIZE bytes)"
    and "p = root @ request_filename (take BUFFER_SIZE bytes)"
    and "\<not> ifstream_good fs p" and "\<not> is_directory fs p"
  shows "handleClient fs c root =
     Inr (c\<lparr>incoming := Some (drop BUFFER_SIZE bytes),
            sent := sent c @ ''HTTP/1.0 404 NOT FOUND'' @ CRLF @
              ''Content-Type: text/html'' @ CRLF @
              ''Content-Length: '' @ to_string (length error_page) @ CRLF @
              CRLF @ error_page @ CRLF\<rparr>)"
  using assms
  by (simp add: handleClient_def receiveData_Some sendNotFound_def sendError_def bindE_def
      sendData_writable fileExists_def isDirectory_def Let_def)

lemma handleClient_file:
  assumes "incoming c = Some bytes" and "writable c" and "validGET (take BUFFER_SIZE bytes)"
    and "p = root @ request_filename (take BUFFER_SIZE bytes)"
    and "ifstream_good fs p" and "\<not> is_directory fs p"
    and "ifstream_bytes fs p = Some content"
  shows "handleClient fs c root =
     (case regex_search rgx p of
        None \<Rightarrow>
          Inr (c\<lparr>incoming := Some (drop BUFFER_SIZE bytes),
                 sent := sent c @ ''HTTP/1.0 200 OK'' @ CRLF @ content @ CRLF,
                 closed := True\<rparr>)
      | Some m \<Rightarrow>
          (case file_size fs p of
             None \<Rightarrow> Inl FilesystemError
           | Some n \<Rightarrow>
               Inr (c\<lparr>incoming := Some (drop BUFFER_SIZE bytes),
                      sent := sent c @ ''HTTP/1.0 200 OK'' @ CRLF @
                        ''Content-Type: '' @ content_type m @ CRLF @
                        ''Content-Length: '' @ to_string n @ CRLF @ CRLF @
                        content @ CRLF,
                      closed := True\<rparr>)))"
  using assms
  by (simp add: handleClient_def receiveData_Some sendOK_def bindE_def
      sendData_writable sendHeader_writable sendFile_writable fileExists_def isDirectory_def
      Let_def close_socket_def split: option.splits)

lemma match_here_Many_all:
  "list_all P s \<Longrightarrow> match_here [Many P] s = Some s"
  by (induction s) simp_all

lemma rgx_no_dot:
  "CHR ''.'' \<notin> set p \<Longrightarrow> regex_search rgx p = None"
  by (induction p) (auto simp: rgx_def lit_def)

lemma rgx_first_dot:
  assumes "CHR ''.'' \<notin> set pre" and "list_all word_char ext"
  shows "regex_search rgx (pre @ ''.'' @ ext) = Some (''.'' @ ext)"
  using assms(1)
proof (induction pre)
  case Nil
  with match_here_Many_all [OF assms(2)] show ?case by (simp add: rgx_def lit_def)
next
  case (Cons c pre)
  then show ?case by (auto simp: rgx_def lit_def)
qed

lemma content_type_mime_type: "content_type (''.'' @ ext) = mime_type ext"
  by (simp add: content_type_def mime_type_def)

lemma table_fs_sel:
  "ifstream_good (table_fs t) p = (map_of t p \<noteq> None)"
  "ifstream_bytes (table_fs t) p = (case map_of t p of Some (RegularFile bytes) \<Rightarrow> Some bytes | _ \<Rightarrow> None)"
  "is_directory (table_fs t) p = (case map_of t p of Some (Directory names) \<Rightarrow> True | _ \<Rightarrow> False)"
  "is_regular_file (table_fs t) p = (case map_of t p of Some (RegularFile bytes) \<Rightarrow> True | _ \<Rightarrow> False)"
  "file_size (table_fs t) p = (case map_of t p of Some (RegularFile bytes) \<Rightarrow> Some (length bytes) | _ \<Rightarrow> None)"
  "directory_iterator (table_fs t) p = (case map_of t p of Some (Directory names) \<Rightarrow> Some names | _ \<Rightarrow> None)"
  by (simp_all add: table_fs_def)

lemmas regex_eval =
  validGET_def http_request_regex_def lit_def isspace_def path_char_def word_char_def
  isalpha_def isdigit_def BUFFER_SIZE_def

lemmas token_eval = request_filename_def getline_def BUFFER_SIZE_def

lemma fresh_socket_writable: "writable (fresh_socket r)"
  by (simp add: fresh_socket_def writable_def)

lemma fresh_socket_incoming: "incoming (fresh_socket r) = Some r"
  by (simp add: fresh_socket_def)


lemma to_string_42: "to_string 42 = ''42''"
  by code_simp

lemma to_string_length_error_page: "to_string (length error_page) = ''104''"
  by code_simp

section \<open>Directories and the framing of replies\<close>

lemma item_path_slash:
  "dir \<noteq> [] \<Longrightarrow> last dir = CHR ''/'' \<Longrightarrow> item_path dir name = dir @ name"
  by (simp add: item_path_def)

lemma sendHTML_loop_step:
  assumes "name \<noteq> ''index.html''" and "dir \<noteq> []" and "last dir = CHR ''/''"
  shows "sendHTML_loop fs s dir (name # names) stream =
         sendHTML_loop fs s dir names (stream @ entry_line fs dir name)"
  using assms(1) item_path_slash [OF assms(2,3)]
  by (simp add: entry_line_def list_item_def hyperlink_def)

lemma sendHTML_loop_Nil:
  assumes "writable s"
  shows "sendHTML_loop fs s dir [] stream =
     Inr (s\<lparr>sent := sent s @ with_headers ''text/html''
            (stream @ ''</ul>'' @ CRLF @ ''</body>'' @ CRLF @ ''</html>'' @ CRLF)\<rparr>)"
  using assms by (simp add: sendData_writable Let_def with_headers_def)

lemma sendHTML_loop_listing:
  assumes "writable s" and "''index.html'' \<notin> set names"
    and "dir \<noteq> []" and "last dir = CHR ''/''"
  shows "sendHTML_loop fs s dir names stream =
     Inr (s\<lparr>sent := sent s @ with_headers ''text/html''
            ((stream @ concat (map (entry_line fs dir) names)) @
               ''</ul>'' @ CRLF @ ''</body>'' @ CRLF @ ''</html>'' @ CRLF)\<rparr>)"
  using assms(2)
proof (induction names arbitrary: stream)
  case Nil
  show ?case by (simp only: sendHTML_loop_Nil [OF assms(1)] list.map concat.simps append_Nil2)
next
  case (Cons name names)
  from Cons.prems have n: "name \<noteq> ''index.html''" and r: "''index.html'' \<notin> set names"
    by auto
  have "(stream @ entry_line fs dir name) @ concat (map (entry_line fs dir) names) =
        stream @ concat (map (entry_line fs dir) (name # names))"
    by simp
  then show ?case
    by (simp only: sendHTML_loop_step [OF n assms(3,4)] Cons.IH [OF r])
qed

lemma sendHTML_loop_index:
  assumes "''index.html'' \<in> set names"
  shows "sendHTML_loop fs s dir names stream =
     bindE (sendHeader fs s (item_path dir ''index.html''))
       (\<lambda>s'. sendFile fs s' (item_path dir ''index.html''))"
  using assms
  by (induction names arbitrary: stream) auto

lemma match_here_Many_total: "match_here [Many P] s \<noteq> None"
  by (induction s) auto

lemma rgx_with_dot:
  "CHR ''.'' \<in> set p \<Longrightarrow> regex_search rgx p \<noteq> None"
proof (induction p)
  case Nil
  then show ?case by simp
next
  case (Cons c p)
  show ?case
  proof (cases "c = CHR ''.''")
    case True
    from match_here_Many_total [of word_char p] obtain m where
      "match_here [Many word_char] p = Some m" by blast
    with True show ?thesis by (simp add: rgx_def lit_def)
  next
    case False
    with Cons have "regex_search rgx p \<noteq> None" by simp
    with False show ?thesis by (simp add: rgx_def lit_def)
  qed
qed

lemma item_path_index_dot: "CHR ''.'' \<in> set (item_path dir ''index.html'')"
  by (simp add: item_path_def)

lemma handleClient_directory:
  assumes "incoming c = Some bytes" and "writable c" and "validGET (take BUFFER_SIZE bytes)"
    and "p = root @ request_filename (take BUFFER_SIZE bytes)"
    and "is_directory fs p" and "directory_iterator fs p = Some names"
  shows "handleClient fs c root =
     bindE (sendHTML_loop fs
              (c\<lparr>incoming := Some (drop BUFFER_SIZE bytes),
                 sent := sent c @ ''HTTP/1.0 200 OK'' @ CRLF\<rparr>) p names
              (''<html>'' @ CRLF @ ''<head><title></title></head>'' @ CRLF @
               ''<body>'' @ CRLF @ ''<ul>'' @ CRLF))
       (\<lambda>s. Inr (close_socket s))"
  using assms
  by (simp add: handleClient_def receiveData_Some sendOK_def bindE_def
      sendData_writable sendHTML_def fileExists_def isDirectory_def Let_def)

lemmas listing_eval =
  listing_page_def entry_line_def item_path_def list_item_def hyperlink_def
  table_fs_sel example_files_def

lemma of_char_digit_char: "d < 10 \<Longrightarrow> of_char (digit_char d) = 48 + d"
  by (simp add: digit_char_def)

lemma isdigit_digit_char: "d < 10 \<Longrightarrow> isdigit (digit_char d)"
  by (simp add: isdigit_def of_char_digit_char)

lemma to_string_digits: "list_all isdigit (to_string n)"
proof (induction n rule: to_string.induct)
  case (1 n)
  show ?case
  proof (cases "n < 10")
    case True
    then show ?thesis by (simp add: to_string.simps [of n] isdigit_digit_char)
  next
    case False
    with 1 show ?thesis by (simp add: to_string.simps [of n] isdigit_digit_char)
  qed
qed

lemma to_string_not_Nil: "to_string n \<noteq> []"
  by (simp add: to_string.simps [of n])

lemma to_string_value: "foldl (\<lambda>n d. 10 * n + (of_char d - 48)) 0 (to_string n) = n"
proof (induction n rule: to_string.induct)
  case (1 n)
  show ?case
  proof (cases "n < 10")
    case True
    then show ?thesis by (simp add: to_string.simps [of n] of_char_digit_char)
  next
    case False
    with 1 show ?thesis by (simp add: to_string.simps [of n] of_char_digit_char)
  qed
qed

lemma of_decimal_to_string: "of_decimal (to_string n) = Some n"
  by (simp add: of_decimal_def to_string_digits to_string_not_Nil to_string_value)

lemma isdigit_not_CR: "isdigit c \<Longrightarrow> c \<noteq> CHR 0x0D"
  by (auto simp: isdigit_def)

lemma after_blank_line_digits:
  "list_all isdigit ds \<Longrightarrow>
   after_blank_line (ds @ CHR 0x0D # CHR 0x0A # CHR 0x0D # CHR 0x0A # rest) = Some rest"
  by (induction ds) (auto simp: CRLF_def CR_def LF_def dest: isdigit_not_CR)

lemma header_block_digits:
  "list_all isdigit ds \<Longrightarrow>
   header_block (ds @ CHR 0x0D # CHR 0x0A # CHR 0x0D # CHR 0x0A # rest) = ds"
  by (induction ds) (auto simp: CRLF_def CR_def LF_def dest: isdigit_not_CR)

lemma takeWhile_digits:
  "list_all isdigit ds \<Longrightarrow> takeWhile (\<lambda>x. x \<noteq> CHR 0x0D) ds = ds"
  by (induction ds) (auto dest: isdigit_not_CR)

lemma content_type_known: "known_type (content_type m)"
proof -
  have a: "known_type ''text/html''" "known_type ''text/css''" "known_type ''image/jpeg''"
    "known_type ''image/gif''" "known_type ''image/png''" "known_type ''application/pdf''"
    "known_type ''text/plain''"
    by (simp_all add: known_type_def)
  show ?thesis
    unfolding content_type_def by (simp only: a if_split simp_thms)
qed

lemmas parse_simps =
  with_headers_def CRLF_def CR_def LF_def declared_content_length_def
  after_blank_line_digits header_block_digits takeWhile_digits
  to_string_digits of_decimal_to_string

lemma parse_reply_200:
  assumes "known_type ty"
  shows "after_blank_line (''HTTP/1.0 200 OK'' @ CRLF @ with_headers ty body) = Some (body @ CRLF) \<and>
         declared_content_length (''HTTP/1.0 200 OK'' @ CRLF @ with_headers ty body) = Some (length body)"
  using assms unfolding known_type_def
  by (elim disjE) (simp_all add: parse_simps)

lemma parse_reply_404:
  "after_blank_line (''HTTP/1.0 404 NOT FOUND'' @ CRLF @ with_headers ''text/html'' body) = Some (body @ CRLF) \<and>
   declared_content_length (''HTTP/1.0 404 NOT FOUND'' @ CRLF @ with_headers ''text/html'' body) = Some (length body)"
  by (simp add: parse_simps)

lemma sendData_sent: "sendData c d = Inr s \<Longrightarrow> sent s = sent c @ d"
  by (auto simp: sendData_def split: if_splits option.splits)

lemma sendFile_loop_sent: "sendFile_loop c b = Inr s \<Longrightarrow> sent s = sent c @ b"
proof (induction c b arbitrary: s rule: sendFile_loop.induct)
  case (1 c b)
  from "1.prems" obtain s1 where s1: "sendData c (take 4096 b) = Inr s1"
    by (cases "sendData c (take 4096 b)") (simp_all add: sendFile_loop.simps [of c b])
  from sendData_sent [OF s1] have e1: "sent s1 = sent c @ take 4096 b" .
  show ?case
  proof (cases "length b < 4096")
    case True
    with "1.prems" s1 have "s = s1" by (simp add: sendFile_loop.simps [of c b])
    with e1 True show ?thesis by simp
  next
    case False
    with "1.prems" s1 have "sendFile_loop s1 (drop 4096 b) = Inr s"
      by (simp add: sendFile_loop.simps [of c b])
    from "1.IH" [OF s1 False this] e1 show ?thesis by simp
  qed
qed

lemma sendFile_sent:
  assumes "sendFile fs c q = Inr s"
  shows "\<exists>content. ifstream_bytes fs q = Some content \<and> sent s = sent c @ content @ CRLF"
proof -
  from assms obtain content where b: "ifstream_bytes fs q = Some content"
    by (cases "ifstream_bytes fs q") (simp_all add: sendFile_def)
  with assms obtain s1 where l: "sendFile_loop c content = Inr s1" and d: "sendData s1 CRLF = Inr s"
    by (cases "sendFile_loop c content") (simp_all add: sendFile_def bindE_def)
  from sendFile_loop_sent [OF l] sendData_sent [OF d] have "sent s = sent c @ content @ CRLF"
    by simp
  with b show ?thesis by blast
qed

lemma sendHeader_sent:
  assumes "sendHeader fs c q = Inr s" and "regex_search rgx q = Some m"
  shows "\<exists>n. file_size fs q = Some n \<and>
           sent s = sent c @ ''Content-Type: '' @ content_type m @ CRLF @
                      ''Content-Length: '' @ to_string n @ CRLF @ CRLF"
proof -
  from assms obtain n where n: "file_size fs q = Some n"
    by (cases "file_size fs q") (simp_all add: sendHeader_def)
  with assms have "sendData c (''Content-Type: '' @ content_type m @ CRLF @
                      ''Content-Length: '' @ to_string n @ CRLF @ CRLF) = Inr s"
    by (simp add: sendHeader_def)
  from sendData_sent [OF this] n show ?thesis by blast
qed

lemma file_reply_sent:
  assumes "bindE (sendHeader fs c q) (\<lambda>s'. sendFile fs s' q) = Inr s"
    and "CHR ''.'' \<in> set q" and "sizes_agree fs"
  shows "\<exists>ty body. known_type ty \<and> sent s = sent c @ with_headers ty body"
proof -
  from assms(1) obtain s1 where h: "sendHeader fs c q = Inr s1" and f: "sendFile fs s1 q = Inr s"
    by (cases "sendHeader fs c q") (simp_all add: bindE_def)
  from rgx_with_dot [OF assms(2)] obtain m where m: "regex_search rgx q = Some m" by blast
  from sendHeader_sent [OF h m] obtain n where n: "file_size fs q = Some n"
    and e1: "sent s1 = sent c @ ''Content-Type: '' @ content_type m @ CRLF @
                      ''Content-Length: '' @ to_string n @ CRLF @ CRLF" by blast
  from sendFile_sent [OF f] obtain content where b: "ifstream_bytes fs q = Some content"
    and e2: "sent s = sent s1 @ content @ CRLF" by blast
  from assms(3) n b have "n = length content" unfolding sizes_agree_def by blast
  with e1 e2 have "sent s = sent c @ with_headers (content_type m) content"
    by (simp add: with_headers_def)
  with content_type_known [of m] show ?thesis by blast
qed

lemma known_type_html: "known_type ''text/html''"
  by (simp add: known_type_def)

lemma sendHTML_loop_sent:
  assumes "sendHTML_loop fs c dir names stream = Inr s" and "sizes_agree fs"
  shows "\<exists>ty body. known_type ty \<and> sent s = sent c @ with_headers ty body"
  using assms(1)
proof (induction names arbitrary: stream)
  case Nil
  then have "sendData c (with_headers ''text/html''
               (stream @ ''</ul>'' @ CRLF @ ''</body>'' @ CRLF @ ''</html>'' @ CRLF)) = Inr s"
    by (simp add: Let_def with_headers_def)
  from sendData_sent [OF this] known_type_html show ?case by blast
next
  case (Cons name names)
  show ?case
  proof (cases "name = ''index.html''")
    case True
    with Cons.prems have "bindE (sendHeader fs c (item_path dir ''index.html''))
        (\<lambda>s'. sendFile fs s' (item_path dir ''index.html'')) = Inr s"
      by simp
    from file_reply_sent [OF this item_path_index_dot assms(2)] show ?thesis .
  next
    case False
    with Cons.prems obtain stream' where "sendHTML_loop fs c dir names stream' = Inr s"
      by (auto split: if_splits)
    from Cons.IH [OF this] show ?thesis .
  qed
qed

lemma sizes_agree_table_fs: "sizes_agree (table_fs t)"
  by (auto simp: sizes_agree_def table_fs_sel split: option.splits node.splits)

section \<open>The claims about the request handler\<close>

text \<open>
  C3 (the code does not do this): the claim has every path of \<open>handleClient\<close> end
  by closing the socket. The bad-request path and the not-found path return before
  \<open>close\<close>: after \<open>HEAD / HTTP/1.0\<close> (answered 400) and after a \<open>GET\<close> for a file
  that does not exist (answered 404) the socket is still open.
\<close>

theorem early_returns_leave_socket_open:
  "handleClient (table_fs example_files) (fresh_socket ''HEAD / HTTP/1.0'') ''/srv/www'' =
     Inr \<lparr>incoming = Some [], sent = ''HTTP/1.0 400 BAD REQUEST'' @ CRLF,
          closed = False, accepts = None\<rparr> \<and>
   handleClient (table_fs example_files) (fresh_socket ''GET /missing.txt HTTP/1.1'') ''/srv/www'' =
     Inr \<lparr>incoming = Some [],
          sent = ''HTTP/1.0 404 NOT FOUND'' @ CRLF @ ''Content-Type: text/html'' @ CRLF @
                 ''Content-Length: 104'' @ CRLF @ CRLF @ error_page @ CRLF,
          closed = False, accepts = None\<rparr>"
proof -
  have v1: "\<not> validGET (take BUFFER_SIZE ''HEAD / HTTP/1.0'')" by (simp add: regex_eval)
  have a: "handleClient (table_fs example_files) (fresh_socket ''HEAD / HTTP/1.0'') ''/srv/www'' =
     Inr \<lparr>incoming = Some [], sent = ''HTTP/1.0 400 BAD REQUEST'' @ CRLF,
          closed = False, accepts = None\<rparr>"
    by (simp only: handleClient_bad_request [OF fresh_socket_incoming fresh_socket_writable v1])
       (simp add: fresh_socket_def BUFFER_SIZE_def)
  let ?r = "''GET /missing.txt HTTP/1.1''"
  let ?p = "''/srv/www/missing.txt''"
  have v: "validGET (take BUFFER_SIZE ?r)" by (simp add: regex_eval)
  have p: "?p = ''/srv/www'' @ request_filename (take BUFFER_SIZE ?r)" by (simp add: token_eval)
  have g: "\<not> ifstream_good (table_fs example_files) ?p"
    and n: "\<not> is_directory (table_fs example_files) ?p"
    by (simp_all add: table_fs_sel example_files_def)
  have b: "handleClient (table_fs example_files) (fresh_socket ?r) ''/srv/www'' =
     Inr \<lparr>incoming = Some [],
          sent = ''HTTP/1.0 404 NOT FOUND'' @ CRLF @ ''Content-Type: text/html'' @ CRLF @
                 ''Content-Length: 104'' @ CRLF @ CRLF @ error_page @ CRLF,
          closed = False, accepts = None\<rparr>"
    by (simp only: handleClient_not_found [OF fresh_socket_incoming fresh_socket_writable v p g n]
          to_string_length_error_page)
       (simp add: fresh_socket_def BUFFER_SIZE_def)
  from a b show ?thesis by (rule conjI)
qed

text \<open>
  C5, as the specification states it, fails for a file with no dot in its path: the
  reply to \<open>GET /README\<close> has no \<open>Content-Type\<close> and no \<open>Content-Length\<close> at all.
\<close>

theorem no_extension_counterexample:
  "\<exists>s. handleClient (table_fs example_files) (fresh_socket ''GET /README HTTP/1.0'') ''/srv/www'' =
          Inr s \<and>
       sent s = ''HTTP/1.0 200 OK'' @ CRLF @ ''plain words'' @ CRLF \<and>
       \<not> sublist ''Content-Type'' (sent s) \<and> \<not> sublist ''Content-Length'' (sent s)"
proof -
  let ?r = "''GET /README HTTP/1.0''"
  let ?p = "''/srv/www/README''"
  have v: "validGET (take BUFFER_SIZE ?r)" by (simp add: regex_eval)
  have p: "?p = ''/srv/www'' @ request_filename (take BUFFER_SIZE ?r)" by (simp add: token_eval)
  have g: "ifstream_good (table_fs example_files) ?p"
    and n: "\<not> is_directory (table_fs example_files) ?p"
    and b: "ifstream_bytes (table_fs example_files) ?p = Some ''plain words''"
    by (simp_all add: table_fs_sel example_files_def)
  have r: "regex_search rgx ?p = None" by (rule rgx_no_dot) simp
  show ?thesis
    by (simp only: handleClient_file [OF fresh_socket_incoming fresh_socket_writable v p g n b]
        r option.case) (simp add: fresh_socket_def CRLF_def CR_def LF_def sublist_code)
qed

text \<open>
  C5, amended: for a request that resolves to an existing regular file whose resolved
  path has exactly one dot, followed up to the end of the path by word characters only
  (the file's extension), the reply is the 200 status line, a \<open>Content-Type\<close> header
  with the value the table gives for that extension (\<open>text/plain\<close> for an extension
  that is not in the table), a \<open>Content-Length\<close> header with the size \<open>fs::file_size\<close>
  reports, a blank line, the file's bytes and the two-byte terminator.
\<close>

theorem extension_headers:
  assumes "incoming c = Some bytes" and "writable c" and "validGET (take BUFFER_SIZE bytes)"
    and "root @ request_filename (take BUFFER_SIZE bytes) = pre @ ''.'' @ ext"
    and "CHR ''.'' \<notin> set pre" and "list_all word_char ext"
    and "ifstream_good fs (pre @ ''.'' @ ext)" and "\<not> is_directory fs (pre @ ''.'' @ ext)"
    and "ifstream_bytes fs (pre @ ''.'' @ ext) = Some content"
    and "file_size fs (pre @ ''.'' @ ext) = Some n"
  shows "handleClient fs c root =
     Inr (c\<lparr>incoming := Some (drop BUFFER_SIZE bytes),
            sent := sent c @ ''HTTP/1.0 200 OK'' @ CRLF @
              ''Content-Type: '' @ mime_type ext @ CRLF @
              ''Content-Length: '' @ to_string n @ CRLF @ CRLF @
              content @ CRLF,
            closed := True\<rparr>)"
proof -
  have r: "regex_search rgx (pre @ ''.'' @ ext) = Some (''.'' @ ext)"
    by (rule rgx_first_dot [OF assms(5,6)])
  show ?thesis
    by (simp only: handleClient_file [OF assms(1-3) assms(4) [symmetric] assms(7-9)]
        r assms(10) option.case content_type_mime_type)
qed

theorem extension_headers_witness:
  "handleClient (table_fs example_files) (fresh_socket ''GET /site/x.css HTTP/1.1'') ''/srv/www'' =
     Inr \<lparr>incoming = Some [],
          sent = ''HTTP/1.0 200 OK'' @ CRLF @ ''Content-Type: text/css'' @ CRLF @
                 ''Content-Length: 4'' @ CRLF @ CRLF @ ''p {}'' @ CRLF,
          closed = True, accepts = None\<rparr>"
proof -
  let ?r = "''GET /site/x.css HTTP/1.1''"
  let ?p = "''/srv/www/site/x'' @ ''.'' @ ''css''"
  have v: "validGET (take BUFFER_SIZE ?r)" by (simp add: regex_eval)
  have p: "''/srv/www'' @ request_filename (take BUFFER_SIZE ?r) = ?p" by (simp add: token_eval)
  have d: "CHR ''.'' \<notin> set ''/srv/www/site/x''" by simp
  have w: "list_all word_char ''css''" by (simp add: word_char_def isalpha_def isdigit_def)
  have g: "ifstream_good (table_fs example_files) ?p"
    and n: "\<not> is_directory (table_fs example_files) ?p"
    and b: "ifstream_bytes (table_fs example_files) ?p = Some ''p {}''"
    and z: "file_size (table_fs example_files) ?p = Some 4"
    by (simp_all add: table_fs_sel example_files_def)
  have t: "to_string 4 = ''4''" by code_simp
  from extension_headers [OF fresh_socket_incoming fresh_socket_writable v p d w g n b z]
  show ?thesis by (simp add: fresh_socket_def BUFFER_SIZE_def mime_type_def t)
qed

text \<open>
  C7, as the specification states it (a space on each side of the path), fails: a
  request whose separators are tabs contains no substring of that form, and is not
  answered 400. It passes \<open>validGET\<close>, whose pattern takes any whitespace character;
  the path token is then the whole buffer, which names no file, and the reply is 404.
\<close>

theorem tab_separated_request_counterexample:
  "\<not> claimed_request_pattern (''GET'' @ [CHR 0x09] @ ''/index.html'' @ [CHR 0x09] @ ''HTTP/1.0'') \<and>
   handleClient (table_fs example_files)
     (fresh_socket (''GET'' @ [CHR 0x09] @ ''/index.html'' @ [CHR 0x09] @ ''HTTP/1.0'')) ''/srv/www'' =
     Inr \<lparr>incoming = Some [],
          sent = ''HTTP/1.0 404 NOT FOUND'' @ CRLF @ ''Content-Type: text/html'' @ CRLF @
                 ''Content-Length: 104'' @ CRLF @ CRLF @ error_page @ CRLF,
          closed = False, accepts = None\<rparr>"
proof -
  let ?r = "''GET'' @ [CHR 0x09] @ ''/index.html'' @ [CHR 0x09] @ ''HTTP/1.0''"
  let ?p = "''/srv/www'' @ ?r"
  have "CHR '' '' \<notin> set ?r" by simp
  with claimed_request_pattern_space have a: "\<not> claimed_request_pattern ?r" by blast
  have v: "validGET (take BUFFER_SIZE ?r)" by (simp add: regex_eval)
  have p: "?p = ''/srv/www'' @ request_filename (take BUFFER_SIZE ?r)" by (simp add: token_eval)
  have g: "\<not> ifstream_good (table_fs example_files) ?p"
    and n: "\<not> is_directory (table_fs example_files) ?p"
    by (simp_all add: table_fs_sel example_files_def)
  have b: "handleClient (table_fs example_files) (fresh_socket ?r) ''/srv/www'' =
     Inr \<lparr>incoming = Some [],
          sent = ''HTTP/1.0 404 NOT FOUND'' @ CRLF @ ''Content-Type: text/html'' @ CRLF @
                 ''Content-Length: 104'' @ CRLF @ CRLF @ error_page @ CRLF,
          closed = False, accepts = None\<rparr>"
    by (simp only: handleClient_not_found [OF fresh_socket_incoming fresh_socket_writable v p g n]
          to_string_length_error_page)
       (simp add: fresh_socket_def BUFFER_SIZE_def)
  from a b show ?thesis by (rule conjI)
qed

text \<open>
  C7, amended: for every received request buffer that contains no substring of the form
  \<open>GET\<close>, one whitespace character, a path over word characters and \<open>- . /\<close>, one
  whitespace character, \<open>HTTP/\<close>, digit, dot, digit, the server sends exactly the status
  line \<open>HTTP/1.0 400 BAD REQUEST\<close> followed by CRLF, with no headers and no body.
\<close>

theorem bad_request_response:
  assumes "incoming c = Some bytes" and "writable c"
    and "\<not> request_pattern (take BUFFER_SIZE bytes)"
  shows "handleClient fs c root =
     Inr (c\<lparr>incoming := Some (drop BUFFER_SIZE bytes),
            sent := sent c @ ''HTTP/1.0 400 BAD REQUEST'' @ CRLF\<rparr>)"
proof -
  from assms(3) have "\<not> validGET (take BUFFER_SIZE bytes)"
    by (simp add: validGET_iff)
  with assms(1,2) show ?thesis by (rule handleClient_bad_request)
qed

theorem bad_request_response_witness:
  "handleClient (table_fs example_files) (fresh_socket ''POST / HTTP/1.0'') ''/srv/www'' =
     Inr \<lparr>incoming = Some [], sent = ''HTTP/1.0 400 BAD REQUEST'' @ CRLF,
          closed = False, accepts = None\<rparr>"
proof -
  have "\<not> validGET (take BUFFER_SIZE ''POST / HTTP/1.0'')" by (simp add: regex_eval)
  then have v: "\<not> request_pattern (take BUFFER_SIZE ''POST / HTTP/1.0'')"
    unfolding validGET_iff .
  from bad_request_response [OF fresh_socket_incoming fresh_socket_writable v]
  show ?thesis by (simp add: fresh_socket_def BUFFER_SIZE_def)
qed

text \<open>
  C8, as the specification states it, fails: the reply to \<open>GET /index.html HTTP/1.0\<close>
  for a file of 42 bytes carries \<open>Content-Type: text/html\<close>, the table's value for
  \<open>.html\<close>, not \<open>text/plain\<close>.
\<close>

theorem index_html_counterexample:
  "\<exists>s. handleClient (table_fs example_files) (fresh_socket ''GET /index.html HTTP/1.0'')
          ''/srv/www'' = Inr s \<and>
       sent s \<noteq> ''HTTP/1.0 200 OK'' @ CRLF @ ''Content-Type: text/plain'' @ CRLF @
                 ''Content-Length: 42'' @ CRLF @ CRLF @
                 ''Forty-two bytes of plain text in one file.'' @ CRLF"
proof -
  let ?r = "''GET /index.html HTTP/1.0''"
  let ?p = "''/srv/www/index.html''"
  have v: "validGET (take BUFFER_SIZE ?r)" by (simp add: regex_eval)
  have p: "?p = ''/srv/www'' @ request_filename (take BUFFER_SIZE ?r)" by (simp add: token_eval)
  have g: "ifstream_good (table_fs example_files) ?p"
    and n: "\<not> is_directory (table_fs example_files) ?p"
    and b: "ifstream_bytes (table_fs example_files) ?p =
              Some ''Forty-two bytes of plain text in one file.''"
    and z: "file_size (table_fs example_files) ?p = Some 42"
    by (simp_all add: table_fs_sel example_files_def)
  have r: "regex_search rgx ?p = Some ''.html''"
    by (simp add: rgx_def lit_def word_char_def isalpha_def isdigit_def)
  have t: "content_type ''.html'' = ''text/html''" by (simp add: content_type_def)
  show ?thesis
    by (simp only: handleClient_file [OF fresh_socket_incoming fresh_socket_writable v p g n b]
        r z option.case t to_string_42) (simp add: CRLF_def)
qed

text \<open>
  C8, amended: for the request \<open>GET /index.html HTTP/1.0\<close> against a server root
  without a dot in its name, where \<open>index.html\<close> is an existing regular file of 42
  bytes, the reply is the status line \<open>HTTP/1.0 200 OK\<close>, \<open>Content-Type: text/html\<close>,
  \<open>Content-Length: 42\<close>, a blank line, exactly those 42 bytes, then the two-byte
  terminator.
\<close>

theorem index_html_response:
  assumes "incoming c = Some (''GET /index.html HTTP/1.0'' @ rest)" and "writable c"
    and "CHR ''.'' \<notin> set root"
    and "ifstream_good fs (root @ ''/index.html'')"
    and "\<not> is_directory fs (root @ ''/index.html'')"
    and "ifstream_bytes fs (root @ ''/index.html'') = Some content"
    and "length content = 42"
    and "file_size fs (root @ ''/index.html'') = Some 42"
  shows "handleClient fs c root =
     Inr (c\<lparr>incoming := Some (drop BUFFER_SIZE (''GET /index.html HTTP/1.0'' @ rest)),
            sent := sent c @ ''HTTP/1.0 200 OK'' @ CRLF @
              ''Content-Type: text/html'' @ CRLF @
              ''Content-Length: 42'' @ CRLF @ CRLF @
              content @ CRLF,
            closed := True\<rparr>)"
proof -
  let ?bytes = "''GET /index.html HTTP/1.0'' @ rest"
  have v: "validGET (take BUFFER_SIZE ?bytes)" by (simp add: regex_eval)
  have f: "request_filename (take BUFFER_SIZE ?bytes) = ''/index.html''"
    by (simp add: token_eval)
  have p: "root @ ''/index.html'' = root @ request_filename (take BUFFER_SIZE ?bytes)"
    by (simp only: f)
  have "CHR ''.'' \<notin> set (root @ ''/index'')" using assms(3) by simp
  moreover have "list_all word_char ''html''"
    by (simp add: word_char_def isalpha_def isdigit_def)
  ultimately have "regex_search rgx ((root @ ''/index'') @ ''.'' @ ''html'') = Some (''.'' @ ''html'')"
    by (rule rgx_first_dot)
  then have r: "regex_search rgx (root @ ''/index.html'') = Some ''.html''" by simp
  have t: "content_type ''.html'' = ''text/html''" by (simp add: content_type_def)
  show ?thesis
    by (simp only: handleClient_file [OF assms(1,2) v p assms(4-6)] r assms(8) option.case t
        to_string_42) simp
qed

theorem index_html_response_witness:
  "handleClient (table_fs example_files) (fresh_socket (''GET /index.html HTTP/1.0'' @ CRLF @ CRLF))
     ''/srv/www'' =
   Inr \<lparr>incoming = Some [],
        sent = ''HTTP/1.0 200 OK'' @ CRLF @ ''Content-Type: text/html'' @ CRLF @
               ''Content-Length: 42'' @ CRLF @ CRLF @
               ''Forty-two bytes of plain text in one file.'' @ CRLF,
        closed = True, accepts = None\<rparr>"
proof -
  let ?p = "''/srv/www'' @ ''/index.html''"
  have i: "incoming (fresh_socket (''GET /index.html HTTP/1.0'' @ CRLF @ CRLF)) =
             Some (''GET /index.html HTTP/1.0'' @ CRLF @ CRLF)"
    by (rule fresh_socket_incoming)
  have d: "CHR ''.'' \<notin> set ''/srv/www''" by simp
  have g: "ifstream_good (table_fs example_files) ?p"
    and n: "\<not> is_directory (table_fs example_files) ?p"
    and b: "ifstream_bytes (table_fs example_files) ?p =
              Some ''Forty-two bytes of plain text in one file.''"
    and z: "file_size (table_fs example_files) ?p = Some 42"
    by (simp_all add: table_fs_sel example_files_def)
  have l: "length ''Forty-two bytes of plain text in one file.'' = 42" by simp
  from index_html_response [OF i fresh_socket_writable d g n b l z]
  show ?thesis by (simp add: fresh_socket_def BUFFER_SIZE_def CRLF_def)
qed

text \<open>
  C10: for every request that resolves to an existing regular file whose resolved path
  contains no dot, the reply is the status line \<open>HTTP/1.0 200 OK\<close> followed directly by
  the file's bytes and the two-byte terminator: no \<open>Content-Type\<close>, no
  \<open>Content-Length\<close>, no blank line.
\<close>

theorem no_dot_no_headers:
  assumes "incoming c = Some bytes" and "writable c" and "validGET (take BUFFER_SIZE bytes)"
    and "p = root @ request_filename (take BUFFER_SIZE bytes)"
    and "CHR ''.'' \<notin> set p"
    and "ifstream_good fs p" and "\<not> is_directory fs p"
    and "ifstream_bytes fs p = Some content"
  shows "handleClient fs c root =
     Inr (c\<lparr>incoming := Some (drop BUFFER_SIZE bytes),
            sent := sent c @ ''HTTP/1.0 200 OK'' @ CRLF @ content @ CRLF,
            closed := True\<rparr>)"
  by (simp only: handleClient_file [OF assms(1-4) assms(6-8)] rgx_no_dot [OF assms(5)]
      option.case)

theorem no_dot_no_headers_witness:
  "handleClient (table_fs example_files) (fresh_socket ''GET /LICENSE HTTP/1.0'') ''/srv/www'' =
     Inr \<lparr>incoming = Some [], sent = ''HTTP/1.0 200 OK'' @ CRLF @ ''free'' @ CRLF,
          closed = True, accepts = None\<rparr>"
proof -
  let ?r = "''GET /LICENSE HTTP/1.0''"
  let ?p = "''/srv/www/LICENSE''"
  have v: "validGET (take BUFFER_SIZE ?r)" by (simp add: regex_eval)
  have p: "?p = ''/srv/www'' @ request_filename (take BUFFER_SIZE ?r)" by (simp add: token_eval)
  have d: "CHR ''.'' \<notin> set ?p" by simp
  have g: "ifstream_good (table_fs example_files) ?p"
    and n: "\<not> is_directory (table_fs example_files) ?p"
    and b: "ifstream_bytes (table_fs example_files) ?p = Some ''free''"
    by (simp_all add: table_fs_sel example_files_def)
  from no_dot_no_headers [OF fresh_socket_incoming fresh_socket_writable v p d g n b]
  show ?thesis by (simp add: fresh_socket_def BUFFER_SIZE_def)
qed

text \<open>
  C4: for every response that carries a \<open>Content-Length\<close> header (the 404 error
  page, the reply to a directory request, the reply for a regular file with a dot in
  its path), on a filesystem that is consistent about sizes, the number declared in
  \<open>Content-Length\<close> is the number of bytes that follow the blank line, the two-byte
  terminator not counted.
\<close>

theorem content_length_round_trip:
  assumes "handleClient fs c root = Inr s" and "sent c = []"
    and "incoming c = Some bytes" and "validGET (take BUFFER_SIZE bytes)"
    and "p = root @ request_filename (take BUFFER_SIZE bytes)"
    and "is_directory fs p \<or> \<not> ifstream_good fs p \<or> CHR ''.'' \<in> set p"
    and "sizes_agree fs"
  shows "\<exists>body. after_blank_line (sent s) = Some (body @ CRLF) \<and>
           declared_content_length (sent s) = Some (length body)"
proof -
  let ?c0 = "c\<lparr>incoming := Some (drop BUFFER_SIZE bytes)\<rparr>"
  have c0: "sent ?c0 = []" using assms(2) by simp
  have main: "handleClient fs c root =
      (if \<not> ifstream_good fs p \<and> \<not> is_directory fs p
       then bindE (sendNotFound ?c0) sendError
       else bindE (sendOK ?c0) (\<lambda>s1.
        bindE (if is_directory fs p then sendHTML fs s1 p
               else if ifstream_good fs p
               then bindE (sendHeader fs s1 p) (\<lambda>s2. sendFile fs s2 p)
               else Inr s1) (\<lambda>s3. Inr (close_socket s3))))"
    unfolding assms(5) handleClient_def fileExists_def isDirectory_def Let_def
    using assms(3,4) by (simp add: receiveData_Some)
  show ?thesis
  proof (cases "\<not> ifstream_good fs p \<and> \<not> is_directory fs p")
    case True
    with assms(1) main have "bindE (sendNotFound ?c0) sendError = Inr s"
      by simp
    then obtain s1 where n: "sendNotFound ?c0 = Inr s1" and e: "sendError s1 = Inr s"
      by (cases "sendNotFound ?c0") (simp_all add: bindE_def)
    from sendData_sent [OF n [unfolded sendNotFound_def]] c0
    have e1: "sent s1 = ''HTTP/1.0 404 NOT FOUND'' @ CRLF" by simp
    from e have "sendData s1 (with_headers ''text/html'' error_page) = Inr s"
      by (simp add: sendError_def with_headers_def)
    from sendData_sent [OF this] e1
    have "sent s = ''HTTP/1.0 404 NOT FOUND'' @ CRLF @ with_headers ''text/html'' error_page"
      by simp
    with parse_reply_404 [of error_page] show ?thesis by metis
  next
    case False
    with assms(1) main have "bindE (sendOK ?c0) (\<lambda>s1.
        bindE (if is_directory fs p then sendHTML fs s1 p
               else if ifstream_good fs p
               then bindE (sendHeader fs s1 p) (\<lambda>s2. sendFile fs s2 p)
               else Inr s1) (\<lambda>s3. Inr (close_socket s3))) = Inr s"
      by simp
    then obtain s1 where ok: "sendOK ?c0 = Inr s1"
      and rest: "bindE (if is_directory fs p then sendHTML fs s1 p
               else if ifstream_good fs p
               then bindE (sendHeader fs s1 p) (\<lambda>s2. sendFile fs s2 p)
               else Inr s1) (\<lambda>s3. Inr (close_socket s3)) = Inr s"
      by (cases "sendOK ?c0") (simp_all add: bindE_def)
    from sendData_sent [OF ok [unfolded sendOK_def]] c0
    have e1: "sent s1 = ''HTTP/1.0 200 OK'' @ CRLF" by simp
    from rest obtain s3 where body: "(if is_directory fs p then sendHTML fs s1 p
               else if ifstream_good fs p
               then bindE (sendHeader fs s1 p) (\<lambda>s2. sendFile fs s2 p)
               else Inr s1) = Inr s3" and cl: "s = close_socket s3"
      by (cases "if is_directory fs p then sendHTML fs s1 p
               else if ifstream_good fs p
               then bindE (sendHeader fs s1 p) (\<lambda>s2. sendFile fs s2 p)
               else Inr s1") (auto simp: bindE_def)
    have "\<exists>ty body. known_type ty \<and> sent s3 = sent s1 @ with_headers ty body"
    proof (cases "is_directory fs p")
      case True
      with body have h: "sendHTML fs s1 p = Inr s3" by simp
      with True obtain names where "sendHTML_loop fs s1 p names
               (''<html>'' @ CRLF @ ''<head>'' @ ''<title></title>'' @ ''</head>'' @ CRLF @
                ''<body>'' @ CRLF @ ''<ul>'' @ CRLF) = Inr s3"
        by (cases "directory_iterator fs p") (simp_all add: sendHTML_def isDirectory_def)
      from sendHTML_loop_sent [OF this assms(7)] show ?thesis .
    next
      case nd: False
      with False have g: "ifstream_good fs p" by simp
      with nd assms(6) have dot: "CHR ''.'' \<in> set p" by simp
      from body nd g have "bindE (sendHeader fs s1 p) (\<lambda>s2. sendFile fs s2 p) = Inr s3"
        by simp
      from file_reply_sent [OF this dot assms(7)] show ?thesis .
    qed
    then obtain ty body where k: "known_type ty" and e3: "sent s3 = sent s1 @ with_headers ty body"
      by blast
    from cl e3 e1 have "sent s = ''HTTP/1.0 200 OK'' @ CRLF @ with_headers ty body"
      by (simp add: close_socket_def)
    with parse_reply_200 [OF k, of body] show ?thesis by metis
  qed
qed

theorem content_length_round_trip_witness:
  "handleClient (table_fs example_files) (fresh_socket ''GET /site/y.css HTTP/1.0'') ''/srv/www'' =
     Inr \<lparr>incoming = Some [],
          sent = ''HTTP/1.0 200 OK'' @ CRLF @ ''Content-Type: text/css'' @ CRLF @
                 ''Content-Length: 4'' @ CRLF @ CRLF @ ''q {}'' @ CRLF,
          closed = True, accepts = None\<rparr> \<and>
   (\<exists>body. after_blank_line (''HTTP/1.0 200 OK'' @ CRLF @ ''Content-Type: text/css'' @ CRLF @
                 ''Content-Length: 4'' @ CRLF @ CRLF @ ''q {}'' @ CRLF) = Some (body @ CRLF) \<and>
           declared_content_length (''HTTP/1.0 200 OK'' @ CRLF @ ''Content-Type: text/css'' @ CRLF @
                 ''Content-Length: 4'' @ CRLF @ CRLF @ ''q {}'' @ CRLF) = Some (length body) \<and>
           body = ''q {}'')"
proof -
  let ?fs = "table_fs example_files"
  let ?r = "''GET /site/y.css HTTP/1.0''"
  let ?p = "''/srv/www/site/y.css''"
  let ?s = "\<lparr>incoming = Some [],
          sent = ''HTTP/1.0 200 OK'' @ CRLF @ ''Content-Type: text/css'' @ CRLF @
                 ''Content-Length: 4'' @ CRLF @ CRLF @ ''q {}'' @ CRLF,
          closed = True, accepts = None\<rparr>"
  have v: "validGET (take BUFFER_SIZE ?r)" by (simp add: regex_eval)
  have p: "?p = ''/srv/www'' @ request_filename (take BUFFER_SIZE ?r)" by (simp add: token_eval)
  have g: "ifstream_good ?fs ?p" and n: "\<not> is_directory ?fs ?p"
    and b: "ifstream_bytes ?fs ?p = Some ''q {}''" and z: "file_size ?fs ?p = Some 4"
    by (simp_all add: table_fs_sel example_files_def)
  have r: "regex_search rgx ?p = Some ''.css''"
    by (simp add: rgx_def lit_def word_char_def isalpha_def isdigit_def)
  have t: "to_string 4 = ''4''" by code_simp
  have h: "handleClient ?fs (fresh_socket ?r) ''/srv/www'' = Inr ?s"
    by (simp only: handleClient_file [OF fresh_socket_incoming fresh_socket_writable v p g n b]
        r z option.case t) (simp add: fresh_socket_def BUFFER_SIZE_def content_type_def)
  have e: "sent (fresh_socket ?r) = []" by (simp add: fresh_socket_def)
  have d: "is_directory ?fs ?p \<or> \<not> ifstream_good ?fs ?p \<or> CHR ''.'' \<in> set ?p" by simp
  from content_length_round_trip [OF h e fresh_socket_incoming v p d sizes_agree_table_fs]
  obtain body where a: "after_blank_line (sent ?s) = Some (body @ CRLF)"
    and l: "declared_content_length (sent ?s) = Some (length body)" by blast
  have "after_blank_line (sent ?s) = Some (''q {}'' @ CRLF)"
    by (simp add: CRLF_def CR_def LF_def)
  with a have "body = ''q {}''" by simp
  with a l h show ?thesis by simp
qed

text \<open>
  C6, as the specification states it, fails: the page lists only the entries that are
  regular files or directories. In a directory that holds a file \<open>a.txt\<close> and a FIFO
  \<open>pipe\<close>, the page has a hyperlink for \<open>a.txt\<close> and none for \<open>pipe\<close>.
\<close>

theorem unlisted_entry_counterexample:
  "directory_iterator (table_fs example_files) ''/srv/www/pub/'' = Some [''a.txt'', ''pipe''] \<and>
   (\<exists>s. handleClient (table_fs example_files) (fresh_socket ''GET /pub/ HTTP/1.0'') ''/srv/www'' =
          Inr s \<and>
        sublist (hyperlink ''a.txt'') (sent s) \<and>
        \<not> sublist (hyperlink ''pipe'') (sent s) \<and>
        \<not> sublist (hyperlink ''pipe/'') (sent s))"
proof -
  let ?fs = "table_fs example_files"
  let ?r = "''GET /pub/ HTTP/1.0''"
  let ?p = "''/srv/www/pub/''"
  let ?n = "[''a.txt'', ''pipe'']"
  let ?s1 = "(fresh_socket ?r)\<lparr>incoming := Some (drop BUFFER_SIZE ?r),
               sent := sent (fresh_socket ?r) @ ''HTTP/1.0 200 OK'' @ CRLF\<rparr>"
  have v: "validGET (take BUFFER_SIZE ?r)" by (simp add: regex_eval)
  have p: "?p = ''/srv/www'' @ request_filename (take BUFFER_SIZE ?r)" by (simp add: token_eval)
  have d: "is_directory ?fs ?p" and e: "directory_iterator ?fs ?p = Some ?n"
    by (simp_all add: table_fs_sel example_files_def)
  have w: "writable ?s1" using fresh_socket_writable [of ?r] by simp
  have i: "''index.html'' \<notin> set ?n" "?p \<noteq> []" "last ?p = CHR ''/''" by simp_all
  have c: \<open>concat (map (entry_line ?fs ?p) ?n) =
            [CHR 0x09] @ ''<li><a href="a.txt">a.txt</a></li>'' @ CRLF\<close>
    by (simp add: listing_eval)
  let ?page = \<open>''<html>'' @ CRLF @ ''<head><title></title></head>'' @ CRLF @
               ''<body>'' @ CRLF @ ''<ul>'' @ CRLF @
               [CHR 0x09] @ ''<li><a href="a.txt">a.txt</a></li>'' @ CRLF @
               ''</ul>'' @ CRLF @ ''</body>'' @ CRLF @ ''</html>'' @ CRLF\<close>
  have t: "to_string (length ?page) = ''114''" by code_simp
  have h: "handleClient ?fs (fresh_socket ?r) ''/srv/www'' =
     Inr (close_socket (?s1\<lparr>sent := sent ?s1 @ with_headers ''text/html''
            (((''<html>'' @ CRLF @ ''<head><title></title></head>'' @ CRLF @
               ''<body>'' @ CRLF @ ''<ul>'' @ CRLF) @
              concat (map (entry_line ?fs ?p) ?n)) @
               ''</ul>'' @ CRLF @ ''</body>'' @ CRLF @ ''</html>'' @ CRLF)\<rparr>))"
    unfolding handleClient_directory [OF fresh_socket_incoming fresh_socket_writable v p d e]
      sendHTML_loop_listing [OF w i]
    by (simp add: bindE_def)
  have pg: "((''<html>'' @ CRLF @ ''<head><title></title></head>'' @ CRLF @
               ''<body>'' @ CRLF @ ''<ul>'' @ CRLF) @
              concat (map (entry_line ?fs ?p) ?n)) @
               ''</ul>'' @ CRLF @ ''</body>'' @ CRLF @ ''</html>'' @ CRLF = ?page"
    unfolding c by simp
  have wh: "with_headers ''text/html'' ?page =
              ''Content-Type: text/html'' @ CRLF @ ''Content-Length: 114'' @ CRLF @ CRLF @
              ?page @ CRLF"
    unfolding with_headers_def t by simp
  show ?thesis
    unfolding h pg wh
    by (simp add: e fresh_socket_def close_socket_def hyperlink_def
        CRLF_def CR_def LF_def sublist_code)
qed

text \<open>
  C6, amended: for every request that resolves to an existing directory: if the
  directory has an entry named \<open>index.html\<close>, that file is served as in the
  regular-file case (headers from \<open>sendHeader\<close>, then its bytes and the terminator);
  otherwise, when the resolved path ends in a slash, the body of the 200 response is an
  HTML page with one hyperlink for every entry that is a regular file or a directory,
  in the order of the directory, where a directory gets a trailing slash in both the
  link text and the \<open>href\<close> and a regular file does not; entries of any other kind are
  left out.
\<close>

theorem directory_reply:
  assumes "incoming c = Some bytes" and "writable c" and "validGET (take BUFFER_SIZE bytes)"
    and "p = root @ request_filename (take BUFFER_SIZE bytes)"
    and "is_directory fs p" and "directory_iterator fs p = Some names"
  shows "(''index.html'' \<in> set names \<and>
          ifstream_bytes fs (item_path p ''index.html'') = Some content \<and>
          file_size fs (item_path p ''index.html'') = Some n \<longrightarrow>
            (\<exists>m. regex_search rgx (item_path p ''index.html'') = Some m \<and>
               handleClient fs c root =
                 Inr (c\<lparr>incoming := Some (drop BUFFER_SIZE bytes),
                        sent := sent c @ ''HTTP/1.0 200 OK'' @ CRLF @
                          ''Content-Type: '' @ content_type m @ CRLF @
                          ''Content-Length: '' @ to_string n @ CRLF @ CRLF @
                          content @ CRLF,
                        closed := True\<rparr>))) \<and>
         (''index.html'' \<notin> set names \<and> suffix ''/'' p \<longrightarrow>
            handleClient fs c root =
              Inr (c\<lparr>incoming := Some (drop BUFFER_SIZE bytes),
                     sent := sent c @ ''HTTP/1.0 200 OK'' @ CRLF @
                       with_headers ''text/html'' (listing_page fs p names),
                     closed := True\<rparr>))"
proof (intro conjI impI)
  let ?q = "item_path p ''index.html''"
  let ?s1 = "c\<lparr>incoming := Some (drop BUFFER_SIZE bytes),
               sent := sent c @ ''HTTP/1.0 200 OK'' @ CRLF\<rparr>"
  assume a: "''index.html'' \<in> set names \<and> ifstream_bytes fs ?q = Some content \<and>
             file_size fs ?q = Some n"
  from rgx_with_dot [OF item_path_index_dot] obtain m where m: "regex_search rgx ?q = Some m"
    by blast
  have w: "writable ?s1" using assms(2) by simp
  have "handleClient fs c root =
          Inr (c\<lparr>incoming := Some (drop BUFFER_SIZE bytes),
                 sent := sent c @ ''HTTP/1.0 200 OK'' @ CRLF @
                   ''Content-Type: '' @ content_type m @ CRLF @
                   ''Content-Length: '' @ to_string n @ CRLF @ CRLF @
                   content @ CRLF,
                 closed := True\<rparr>)"
    using a m w
    by (simp add: handleClient_directory [OF assms] sendHTML_loop_index bindE_def
        sendHeader_writable sendFile_writable close_socket_def)
  with m show "\<exists>m. regex_search rgx ?q = Some m \<and>
               handleClient fs c root =
                 Inr (c\<lparr>incoming := Some (drop BUFFER_SIZE bytes),
                        sent := sent c @ ''HTTP/1.0 200 OK'' @ CRLF @
                          ''Content-Type: '' @ content_type m @ CRLF @
                          ''Content-Length: '' @ to_string n @ CRLF @ CRLF @
                          content @ CRLF,
                        closed := True\<rparr>)"
    by blast
next
  let ?s1 = "c\<lparr>incoming := Some (drop BUFFER_SIZE bytes),
               sent := sent c @ ''HTTP/1.0 200 OK'' @ CRLF\<rparr>"
  assume b: "''index.html'' \<notin> set names \<and> suffix ''/'' p"
  then have ne: "p \<noteq> []" "last p = CHR ''/''" "''index.html'' \<notin> set names"
    by (auto simp: suffix_def)
  have w: "writable ?s1" using assms(2) by simp
  show "handleClient fs c root =
              Inr (c\<lparr>incoming := Some (drop BUFFER_SIZE bytes),
                     sent := sent c @ ''HTTP/1.0 200 OK'' @ CRLF @
                       with_headers ''text/html'' (listing_page fs p names),
                     closed := True\<rparr>)"
    unfolding handleClient_directory [OF assms] sendHTML_loop_listing [OF w ne(3) ne(1,2)]
    by (simp add: bindE_def close_socket_def listing_page_def)
qed

theorem directory_reply_witness:
  \<open>handleClient (table_fs example_files) (fresh_socket ''GET /site/ HTTP/1.0'') ''/srv/www'' =
     Inr \<lparr>incoming = Some [],
          sent = ''HTTP/1.0 200 OK'' @ CRLF @ ''Content-Type: text/html'' @ CRLF @
                 ''Content-Length: 9'' @ CRLF @ CRLF @ ''<p>hi</p>'' @ CRLF,
          closed = True, accepts = None\<rparr> \<and>
   handleClient (table_fs example_files) (fresh_socket ''GET /subdir/ HTTP/1.0'') ''/srv/www'' =
     Inr \<lparr>incoming = Some [],
          sent = ''HTTP/1.0 200 OK'' @ CRLF @
                 with_headers ''text/html''
                   (''<html>'' @ CRLF @ ''<head><title></title></head>'' @ CRLF @
                    ''<body>'' @ CRLF @ ''<ul>'' @ CRLF @
                    [CHR 0x09] @ ''<li><a href="a.txt">a.txt</a></li>'' @ CRLF @
                    [CHR 0x09] @ ''<li><a href="b/">b/</a></li>'' @ CRLF @
                    ''</ul>'' @ CRLF @ ''</body>'' @ CRLF @ ''</html>'' @ CRLF),
          closed = True, accepts = None\<rparr>\<close>
proof -
  let ?fs = "table_fs example_files"
  let ?r1 = "''GET /site/ HTTP/1.0''"
  let ?p1 = "''/srv/www/site/''"
  let ?n1 = "[''x.css'', ''index.html'', ''y.css'']"
  have v1: "validGET (take BUFFER_SIZE ?r1)" by (simp add: regex_eval)
  have p1: "?p1 = ''/srv/www'' @ request_filename (take BUFFER_SIZE ?r1)" by (simp add: token_eval)
  have d1: "is_directory ?fs ?p1" and e1: "directory_iterator ?fs ?p1 = Some ?n1"
    by (simp_all add: table_fs_sel example_files_def)
  have q1: "item_path ?p1 ''index.html'' = ''/srv/www/site/index.html''"
    by (simp add: item_path_def)
  have i1: "''index.html'' \<in> set ?n1 \<and>
            ifstream_bytes ?fs (item_path ?p1 ''index.html'') = Some ''<p>hi</p>'' \<and>
            file_size ?fs (item_path ?p1 ''index.html'') = Some 9"
    unfolding q1 by (simp add: table_fs_sel example_files_def)
  have m1: "regex_search rgx (item_path ?p1 ''index.html'') = Some ''.html''"
    unfolding q1 by (simp add: rgx_def lit_def word_char_def isalpha_def isdigit_def)
  have t9: "to_string 9 = ''9''" by code_simp
  from directory_reply [OF fresh_socket_incoming fresh_socket_writable v1 p1 d1 e1,
      of "''<p>hi</p>''" 9] i1 m1
  have a: "handleClient ?fs (fresh_socket ?r1) ''/srv/www'' =
     Inr \<lparr>incoming = Some [],
          sent = ''HTTP/1.0 200 OK'' @ CRLF @ ''Content-Type: text/html'' @ CRLF @
                 ''Content-Length: 9'' @ CRLF @ CRLF @ ''<p>hi</p>'' @ CRLF,
          closed = True, accepts = None\<rparr>"
    by (simp add: fresh_socket_def BUFFER_SIZE_def content_type_def t9)
  let ?r2 = "''GET /subdir/ HTTP/1.0''"
  let ?p2 = "''/srv/www/subdir/''"
  let ?n2 = "[''a.txt'', ''b'']"
  have v2: "validGET (take BUFFER_SIZE ?r2)" by (simp add: regex_eval)
  have p2: "?p2 = ''/srv/www'' @ request_filename (take BUFFER_SIZE ?r2)" by (simp add: token_eval)
  have d2: "is_directory ?fs ?p2" and e2: "directory_iterator ?fs ?p2 = Some ?n2"
    by (simp_all add: table_fs_sel example_files_def)
  have i2: "''index.html'' \<notin> set ?n2 \<and> suffix ''/'' ?p2" by (simp add: suffix_def)
  have l2: \<open>listing_page ?fs ?p2 ?n2 =
              ''<html>'' @ CRLF @ ''<head><title></title></head>'' @ CRLF @
              ''<body>'' @ CRLF @ ''<ul>'' @ CRLF @
              [CHR 0x09] @ ''<li><a href="a.txt">a.txt</a></li>'' @ CRLF @
              [CHR 0x09] @ ''<li><a href="b/">b/</a></li>'' @ CRLF @
              ''</ul>'' @ CRLF @ ''</body>'' @ CRLF @ ''</html>'' @ CRLF\<close>
    by (simp add: listing_eval)
  from directory_reply [OF fresh_socket_incoming fresh_socket_writable v2 p2 d2 e2] i2
  have "handleClient ?fs (fresh_socket ?r2) ''/srv/www'' =
     Inr ((fresh_socket ?r2)\<lparr>incoming := Some (drop BUFFER_SIZE ?r2),
            sent := sent (fresh_socket ?r2) @ ''HTTP/1.0 200 OK'' @ CRLF @
              with_headers ''text/html'' (listing_page ?fs ?p2 ?n2),
            closed := True\<rparr>)"
    by blast
  then have b: \<open>handleClient ?fs (fresh_socket ?r2) ''/srv/www'' =
     Inr \<lparr>incoming = Some [],
          sent = ''HTTP/1.0 200 OK'' @ CRLF @
                 with_headers ''text/html''
                   (''<html>'' @ CRLF @ ''<head><title></title></head>'' @ CRLF @
                    ''<body>'' @ CRLF @ ''<ul>'' @ CRLF @
                    [CHR 0x09] @ ''<li><a href="a.txt">a.txt</a></li>'' @ CRLF @
                    [CHR 0x09] @ ''<li><a href="b/">b/</a></li>'' @ CRLF @
                    ''</ul>'' @ CRLF @ ''</body>'' @ CRLF @ ''</html>'' @ CRLF),
          closed = True, accepts = None\<rparr>\<close>
    unfolding l2 by (simp add: fresh_socket_def BUFFER_SIZE_def)
  from a b show ?thesis by (rule conjI)
qed

end
